theory Spec2Isabelle
  imports Complex_Main "HOL-Library.AList"
begin

section \<open>Data model of the LRU cache with lifetime (lru-es6.js)\<close>

text \<open>
  Entries are JavaScript objects that refer to each other through the symbol-keyed
  properties \<open>PREVIOUS\<close> (towards the most recently used end) and \<open>NEXT\<close> (towards
  the least recently used end). Object identity matters (the chain and the key map share
  the entry objects), so the model keeps every entry in an arena \<open>heap\<close>: a reference is
  an index into it, \<open>undefined\<close> is \<open>None\<close>, and \<open>new Entry\<close> appends to the arena.
  Nothing is ever freed; an entry that is no longer referenced is garbage.

  The clock \<open>new Date().getTime()\<close> is a parameter of every operation that reads it
  (milliseconds as \<open>int\<close>); numbers that the code only counts with are \<open>int\<close>.
\<close>

type_synonym addr = nat

datatype error = NotFound | Overflow | TypeError | RangeError

record ('k, 'v) Entry =
  key :: 'k
  value' :: 'v
  CREATED_AT :: int
  PREVIOUS :: "addr option"
  NEXT :: "addr option"

definition new_Entry :: "int \<Rightarrow> 'k \<Rightarrow> 'v \<Rightarrow> ('k, 'v) Entry" where
  "new_Entry now k v =
     \<lparr>key = k, value' = v, CREATED_AT = now, PREVIOUS = None, NEXT = None\<rparr>"

text \<open>
  The cache object. \<open>keymap\<close> is the JavaScript \<open>Map\<close> from keys to entries, kept as an
  association list in insertion order. \<open>own_CREATED_AT\<close> is the property
  \<open>this[CREATED_AT]\<close> of the cache object itself, which \<open>_markEntryAsUsed\<close> writes.
\<close>

record ('k, 'v) LRUCache =
  lifetime :: int
  size' :: int
  limit :: int
  tail :: "addr option"
  head :: "addr option"
  keymap :: "('k \<times> addr) list"
  own_CREATED_AT :: "int option"
  heap :: "('k, 'v) Entry list"

definition set_PREVIOUS :: "addr \<Rightarrow> addr option \<Rightarrow> ('k, 'v) LRUCache \<Rightarrow> ('k, 'v) LRUCache" where
  "set_PREVIOUS a p c = c\<lparr>heap := (heap c)[a := (heap c ! a)\<lparr>PREVIOUS := p\<rparr>]\<rparr>"

definition set_NEXT :: "addr \<Rightarrow> addr option \<Rightarrow> ('k, 'v) LRUCache \<Rightarrow> ('k, 'v) LRUCache" where
  "set_NEXT a n c = c\<lparr>heap := (heap c)[a := (heap c ! a)\<lparr>NEXT := n\<rparr>]\<rparr>"

definition set_value :: "addr \<Rightarrow> 'v \<Rightarrow> ('k, 'v) LRUCache \<Rightarrow> ('k, 'v) LRUCache" where
  "set_value a v c = c\<lparr>heap := (heap c)[a := (heap c ! a)\<lparr>value' := v\<rparr>]\<rparr>"

section \<open>Arithmetic of JavaScript numbers\<close>

text \<open>
  JavaScript numbers are IEEE 754 doubles, and \<open>-\<close> and \<open>/\<close> return the double nearest to
  the exact result, a tie going to the double with the even significand.
  \<open>double_of x\<close> is that double for the rational number \<open>x\<close>: the significand of \<open>x\<close>
  is scaled into the interval from \<open>2^52\<close> to \<open>2^53\<close> by doubling (\<open>scale_up\<close>, at most
  1074 times: the smallest doubles are the multiples of \<open>2^-1074\<close>) or by halving
  (\<open>scale_down\<close>), rounded to a whole number and scaled back. The largest exponent is
  not modelled: no result that is computed here from readings of the clock, which are
  time values (whole numbers of milliseconds of magnitude at most \<open>8.64 * 10^15\<close>),
  comes near the largest double.
\<close>

definition roundTiesToEven :: "rat \<Rightarrow> int" where
  "roundTiesToEven x =
     (let f = \<lfloor>x\<rfloor>; r = x - of_int f
      in if r < 1 / 2 then f else if 1 / 2 < r then f + 1 else if even f then f else f + 1)"

fun scale_up :: "nat \<Rightarrow> rat \<Rightarrow> rat" where
  "scale_up 0 x = of_int (roundTiesToEven x)"
| "scale_up (Suc n) x =
     (if 4503599627370496 \<le> x then of_int (roundTiesToEven x) else scale_up n (2 * x) / 2)"

function scale_down :: "rat \<Rightarrow> rat" where
  "scale_down x =
     (if x < 9007199254740992 then of_int (roundTiesToEven x) else 2 * scale_down (x / 2))"
  by pat_completeness auto
termination
proof (relation "measure (\<lambda>x. nat \<lfloor>x\<rfloor>)")
  show "wf (measure (\<lambda>x. nat \<lfloor>x\<rfloor>))" by simp
next
  fix x :: rat
  assume a: "\<not> x < 9007199254740992"
  then have "x / 2 + 1 \<le> x" by simp
  then have "\<lfloor>x / 2 + 1\<rfloor> \<le> \<lfloor>x\<rfloor>" by (rule floor_mono)
  moreover have "0 < \<lfloor>x\<rfloor>" using a by (simp add: floor_less_iff not_less)
  ultimately show "(x / 2, x) \<in> measure (\<lambda>x. nat \<lfloor>x\<rfloor>)" by simp
qed

definition double_of :: "rat \<Rightarrow> rat" where
  "double_of x =
     (if x = 0 then 0
      else if 0 < x then (if x < 9007199254740992 then scale_up 1074 x else scale_down x)
      else - (if - x < 9007199254740992 then scale_up 1074 (- x) else scale_down (- x)))"

text \<open>
  \<open>var ageInMinutes = (now - entry[CREATED_AT]) / (60000)\<close>: a subtraction and a division
  of doubles. Both readings of the clock are whole numbers that are doubles, so the
  subtraction returns the double of their exact difference.
\<close>

definition ageInMinutes :: "int \<Rightarrow> ('k, 'v) Entry \<Rightarrow> rat" where
  "ageInMinutes now e = double_of (double_of (of_int (now - CREATED_AT e)) / 60000)"

section \<open>Operations of class LRUCache (lru-es6.js)\<close>

text \<open>
  Every operation takes the cache and returns its result with the cache after the call.
  An operation that can throw returns \<open>Inl\<close> of the error with the cache as the throw
  left it. Reading a property of \<open>undefined\<close> is JavaScript's \<open>TypeError\<close>.
\<close>

definition purgeRemovedEntry :: "addr \<Rightarrow> ('k, 'v) LRUCache \<Rightarrow> ('k, 'v) LRUCache" where
  "purgeRemovedEntry entry c =
     (let c1 = set_NEXT entry None c;
          c2 = set_PREVIOUS entry None c1
      in c2\<lparr>keymap := AList.delete (key (heap c2 ! entry)) (keymap c2)\<rparr>)"

definition removeLRUItem ::
  "('k, 'v) LRUCache \<Rightarrow> (error + ('k \<times> 'v) option) \<times> ('k, 'v) LRUCache" where
  "removeLRUItem c =
     (if size' c = 0 then (Inr None, c)
      else if size' c = 1 then
        (let c1 = c\<lparr>tail := None, head := None\<rparr>;
             c2 = c1\<lparr>size' := size' c1 - 1\<rparr>
         in case tail c of
              None \<Rightarrow> (Inl TypeError, c2)
            | Some entry \<Rightarrow>
                (let c3 = purgeRemovedEntry entry c2
                 in (Inr (Some (key (heap c3 ! entry), value' (heap c3 ! entry))), c3)))
      else
        (case tail c of
           None \<Rightarrow> (Inl TypeError, c)
         | Some entry \<Rightarrow>
             (let c1 = c\<lparr>tail := PREVIOUS (heap c ! entry)\<rparr>
              in case tail c1 of
                   None \<Rightarrow> (Inl TypeError, c1)
                 | Some t \<Rightarrow>
                     (let c2 = set_NEXT t None c1;
                          c3 = c2\<lparr>size' := size' c2 - 1\<rparr>;
                          c4 = purgeRemovedEntry entry c3
                      in (Inr (Some (key (heap c4 ! entry), value' (heap c4 ! entry))), c4)))))"

definition delete' :: "'k \<Rightarrow> ('k, 'v) LRUCache \<Rightarrow> 'v option \<times> ('k, 'v) LRUCache" where
  "delete' k c =
     (case map_of (keymap c) k of
        None \<Rightarrow> (None, c)
      | Some entry \<Rightarrow>
          (let c1 = c\<lparr>keymap := AList.delete (key (heap c ! entry)) (keymap c)\<rparr>;
               c2 = (case (PREVIOUS (heap c1 ! entry), NEXT (heap c1 ! entry)) of
                       (Some p, Some n) \<Rightarrow> set_NEXT p (Some n) (set_PREVIOUS n (Some p) c1)
                     | (Some p, None) \<Rightarrow> (set_NEXT p None c1)\<lparr>tail := Some p\<rparr>
                     | (None, Some n) \<Rightarrow> (set_PREVIOUS n None c1)\<lparr>head := Some n\<rparr>
                     | (None, None) \<Rightarrow> c1\<lparr>head := None, tail := None\<rparr>)
           in (Some (value' (heap c2 ! entry)), c2\<lparr>size' := size' c2 - 1\<rparr>)))"

definition has :: "int \<Rightarrow> 'k \<Rightarrow> ('k, 'v) LRUCache \<Rightarrow> bool \<times> ('k, 'v) LRUCache" where
  "has now k c =
     (case map_of (keymap c) k of
        Some entry \<Rightarrow>
          if lifetime c = 0 then (True, c)
          else if ageInMinutes now (heap c ! entry) > of_int (lifetime c)
               then (False, snd (delete' k c))
               else (True, c)
      | None \<Rightarrow> (False, c))"

definition markEntryAsUsed ::
  "int \<Rightarrow> addr \<Rightarrow> bool \<Rightarrow> ('k, 'v) LRUCache \<Rightarrow> (error + unit) \<times> ('k, 'v) LRUCache" where
  "markEntryAsUsed now entry renewAge c =
     (if head c = Some entry then (Inr (), c)
      else case PREVIOUS (heap c ! entry) of
        None \<Rightarrow> (Inl TypeError, c)
      | Some p \<Rightarrow>
          (let c1 = set_NEXT p (NEXT (heap c ! entry)) c
           in case (if tail c1 \<noteq> Some entry
                    then (case NEXT (heap c1 ! entry) of
                            None \<Rightarrow> None
                          | Some n \<Rightarrow> Some (set_PREVIOUS n (PREVIOUS (heap c1 ! entry)) c1))
                    else Some c1) of
                None \<Rightarrow> (Inl TypeError, c1)
              | Some c2 \<Rightarrow>
                  (let c3 = (if tail c2 = Some entry
                             then c2\<lparr>tail := PREVIOUS (heap c2 ! entry)\<rparr> else c2);
                       c4 = set_PREVIOUS entry None c3
                   in case head c4 of
                        None \<Rightarrow> (Inl TypeError, c4)
                      | Some h \<Rightarrow>
                          (let c5 = set_PREVIOUS h (Some entry) c4;
                               c6 = set_NEXT entry (head c5) c5;
                               c7 = c6\<lparr>head := Some entry\<rparr>
                           in (Inr (),
                               if renewAge then c7\<lparr>own_CREATED_AT := Some now\<rparr> else c7)))))"

definition get :: "int \<Rightarrow> 'k \<Rightarrow> ('k, 'v) LRUCache \<Rightarrow> (error + 'v) \<times> ('k, 'v) LRUCache" where
  "get now k c =
     (case has now k c of
        (False, c1) \<Rightarrow> (Inl NotFound, c1)
      | (True, c1) \<Rightarrow>
          (case map_of (keymap c1) k of
             None \<Rightarrow> (Inl TypeError, c1)
           | Some entry \<Rightarrow>
               (case markEntryAsUsed now entry False c1 of
                  (Inl e, c2) \<Rightarrow> (Inl e, c2)
                | (Inr u, c2) \<Rightarrow> (Inr (value' (heap c2 ! entry)), c2))))"

text \<open>
  \<open>set\<close> on a key that is not in the key map, up to and including \<open>++this.size\<close>:
  the new entry is allocated, stored in the key map and linked in front of the head.
\<close>

definition insertEntry ::
  "int \<Rightarrow> 'k \<Rightarrow> 'v \<Rightarrow> ('k, 'v) LRUCache \<Rightarrow> (error + unit) \<times> ('k, 'v) LRUCache" where
  "insertEntry now k v c =
     (let entry = length (heap c);
          c1 = c\<lparr>heap := heap c @ [new_Entry now k v]\<rparr>;
          c2 = c1\<lparr>keymap := AList.update k entry (keymap c1)\<rparr>
      in case (if size' c2 > 0
               then (case head c2 of
                       None \<Rightarrow> None
                     | Some h \<Rightarrow> Some (set_NEXT entry (head c2) (set_PREVIOUS h (Some entry) c2)))
               else Some (c2\<lparr>tail := Some entry\<rparr>)) of
           None \<Rightarrow> (Inl TypeError, c2)
         | Some c3 \<Rightarrow>
             (let c4 = c3\<lparr>head := Some entry\<rparr>
              in (Inr (), c4\<lparr>size' := size' c4 + 1\<rparr>)))"

definition set' :: "int \<Rightarrow> 'k \<Rightarrow> 'v \<Rightarrow> ('k, 'v) LRUCache \<Rightarrow> (error + unit) \<times> ('k, 'v) LRUCache" where
  "set' now k v c =
     (case map_of (keymap c) k of
        Some entry \<Rightarrow> markEntryAsUsed now entry True (set_value entry v c)
      | None \<Rightarrow>
          (case insertEntry now k v c of
             (Inl e, c1) \<Rightarrow> (Inl e, c1)
           | (Inr u, c1) \<Rightarrow>
               if size' c1 > limit c1
               then (case removeLRUItem c1 of
                       (Inl e, c2) \<Rightarrow> (Inl e, c2)
                     | (Inr r, c2) \<Rightarrow> (Inr (), c2))
               else (Inr (), c1)))"

definition clear :: "('k, 'v) LRUCache \<Rightarrow> ('k, 'v) LRUCache" where
  "clear c = c\<lparr>tail := None, head := None, size' := 0, keymap := []\<rparr>"

definition find' :: "'k \<Rightarrow> ('k, 'v) LRUCache \<Rightarrow> 'v option" where
  "find' k c = (case map_of (keymap c) k of None \<Rightarrow> None | Some e \<Rightarrow> Some (value' (heap c ! e)))"

section \<open>Traversal and serialisation\<close>

text \<open>
  Every traversal of the source (\<open>toJSON\<close>, \<open>toString\<close>, \<open>forEach\<close>, the iterators)
  starts at \<open>this.tail\<close> and follows \<open>PREVIOUS\<close> until it reads \<open>undefined\<close>.
  \<open>walk n h p\<close> is that loop with at most \<open>n\<close> entries visited; \<open>None\<close> says that the
  loop has not ended by then. With \<open>n\<close> the number of allocated entries, a walk that
  has not ended has visited some entry twice, so the source's loop runs forever.
\<close>

fun walk :: "nat \<Rightarrow> ('k, 'v) Entry list \<Rightarrow> addr option \<Rightarrow> addr list option" where
  "walk n h None = Some []"
| "walk 0 h (Some a) = None"
| "walk (Suc n) h (Some a) =
     (case walk n h (PREVIOUS (h ! a)) of None \<Rightarrow> None | Some as \<Rightarrow> Some (a # as))"

definition chain :: "('k, 'v) LRUCache \<Rightarrow> addr list option" where
  "chain c = walk (length (heap c)) (heap c) (tail c)"

text \<open>
  \<open>closed h\<close>: every \<open>PREVIOUS\<close> reference of the arena refers to an entry of the
  arena, as every reference of the source refers to an object.
\<close>

definition closed :: "('k, 'v) Entry list \<Rightarrow> bool" where
  "closed h \<longleftrightarrow> (\<forall>a < length h. case PREVIOUS (h ! a) of None \<Rightarrow> True | Some b \<Rightarrow> b < length h)"

text \<open>What \<open>entries()\<close> (the default iterator) yields: the pairs \<open>[key, value]\<close>.\<close>

definition entries :: "('k, 'v) LRUCache \<Rightarrow> ('k \<times> 'v) list option" where
  "entries c = map_option (map (\<lambda>a. (key (heap c ! a), value' (heap c ! a)))) (chain c)"

definition keys :: "('k, 'v) LRUCache \<Rightarrow> 'k list option" where
  "keys c = map_option (map (\<lambda>a. key (heap c ! a))) (chain c)"

text \<open>
  \<open>toJSON\<close> fills an array created with \<open>new Array(this.size)\<close>, which is a
  \<open>RangeError\<close> for a size that is not an array length. A slot that the loop does not
  reach stays empty (\<open>None\<close>). The locale rendering of a date is the parameter
  \<open>toLocaleString\<close>. The result is \<open>None\<close> when the loop does not end.
\<close>

record ('k, 'v) json_entry =
  json_key :: 'k
  json_value :: 'v
  json_created_at :: "string option"

definition toJSON ::
  "(int \<Rightarrow> string) \<Rightarrow> bool \<Rightarrow> ('k, 'v) LRUCache
     \<Rightarrow> (error + ('k, 'v) json_entry option list) option" where
  "toJSON toLocaleString withDate c =
     (if size' c < 0 \<or> 4294967295 < size' c then Some (Inl RangeError)
      else case chain c of
        None \<Rightarrow> None
      | Some as \<Rightarrow>
          Some (Inr (map (\<lambda>a. Some \<lparr>json_key = key (heap c ! a), json_value = value' (heap c ! a),
                                  json_created_at =
                                    (if withDate then Some (toLocaleString (CREATED_AT (heap c ! a)))
                                     else None)\<rparr>) as
                @ replicate (nat (size' c) - length as) None)))"

section \<open>Bulk load and construction\<close>

text \<open>
  The loop of \<open>assign\<close> over the iterable (a finite list of pairs). \<open>assign_step\<close> is
  the body of the loop before the overflow test: the entry is built, stored in the key
  map and linked behind the entry added last. \<open>clock i\<close> is the reading of the clock
  when the entry of the \<open>i\<close>-th pair is built. The local countdown
  \<open>limit\<close> is \<open>None\<close> when it starts at \<open>Number.MAX_VALUE\<close>: decrementing that
  floating-point number leaves it unchanged, so it never compares equal to 0.
\<close>

definition assign_step ::
  "int \<Rightarrow> 'k \<times> 'v \<Rightarrow> addr option \<Rightarrow> ('k, 'v) LRUCache \<Rightarrow> ('k, 'v) LRUCache" where
  "assign_step now x lastAddedEntry c =
     (let newEntry = length (heap c);
          c1 = c\<lparr>heap := heap c @ [new_Entry now (fst x) (snd x)]\<rparr>;
          c2 = c1\<lparr>keymap := AList.update (fst x) newEntry (keymap c1)\<rparr>
      in case lastAddedEntry of
           None \<Rightarrow> c2\<lparr>tail := Some newEntry\<rparr>
         | Some l \<Rightarrow> set_NEXT newEntry (Some l) (set_PREVIOUS l (Some newEntry) c2))"

fun assign_loop ::
  "(nat \<Rightarrow> int) \<Rightarrow> nat \<Rightarrow> ('k \<times> 'v) list \<Rightarrow> addr option \<Rightarrow> int option \<Rightarrow> ('k, 'v) LRUCache
     \<Rightarrow> (error + addr option) \<times> ('k, 'v) LRUCache" where
  "assign_loop clock i [] lastAddedEntry budget c = (Inr lastAddedEntry, c)"
| "assign_loop clock i (x # xs) lastAddedEntry budget c =
     (if budget = Some 0 then (Inl Overflow, assign_step (clock i) x lastAddedEntry c)
      else assign_loop clock (Suc i) xs (Some (length (heap c))) (map_option (\<lambda>n. n - 1) budget)
             (assign_step (clock i) x lastAddedEntry c))"

definition assign ::
  "(nat \<Rightarrow> int) \<Rightarrow> ('k \<times> 'v) list \<Rightarrow> ('k, 'v) LRUCache \<Rightarrow> (error + unit) \<times> ('k, 'v) LRUCache" where
  "assign clock es c =
     (case assign_loop clock 0 es None (if limit c = 0 then None else Some (limit c))
             (c\<lparr>keymap := []\<rparr>) of
        (Inl e, c1) \<Rightarrow> (Inl e, c1)
      | (Inr lastAddedEntry, c1) \<Rightarrow>
          (Inr (), c1\<lparr>head := lastAddedEntry, size' := int (length (keymap c1))\<rparr>))"

text \<open>
  The pairs for which the loop of \<open>assign\<close> builds an entry before it ends or throws:
  all of them, or the first \<open>n + 1\<close> when the countdown starts at \<open>n\<close> and there are more
  than \<open>n\<close> pairs. \<open>loaded c es\<close> are these pairs for \<open>assign\<close> of \<open>es\<close> on the cache \<open>c\<close>.
\<close>

fun processed :: "int option \<Rightarrow> 'a list \<Rightarrow> 'a list" where
  "processed b [] = []"
| "processed b (x # xs) =
     (if b = Some 0 then [x] else x # processed (map_option (\<lambda>n. n - 1) b) xs)"

definition loaded :: "('k, 'v) LRUCache \<Rightarrow> ('k \<times> 'v) list \<Rightarrow> ('k \<times> 'v) list" where
  "loaded c es = processed (if limit c = 0 then None else Some (limit c)) es"

text \<open>
  The constructor is called as \<open>(lifetime, limit, entries)\<close> or as
  \<open>(lifetime, entries)\<close>: a second argument that is not a number is taken as the
  entries, and the limit is 0 then. \<open>fresh\<close> is the object after the field
  initialisers, before the optional bulk load.
\<close>

datatype ('k, 'v) limit_arg = Number int | NotNumber "('k \<times> 'v) list option"

definition fresh :: "int \<Rightarrow> int \<Rightarrow> ('k, 'v) LRUCache" where
  "fresh lifetime0 limit0 =
     \<lparr>lifetime = lifetime0, size' = 0, limit = limit0, tail = None, head = None,
      keymap = [], own_CREATED_AT = None, heap = []\<rparr>"

definition new_LRUCache ::
  "(nat \<Rightarrow> int) \<Rightarrow> int \<Rightarrow> ('k, 'v) limit_arg \<Rightarrow> ('k \<times> 'v) list option
     \<Rightarrow> error + ('k, 'v) LRUCache" where
  "new_LRUCache clock lifetime0 arg2 arg3 =
     (let limit0 = (case arg2 of Number n \<Rightarrow> n | NotNumber es \<Rightarrow> 0);
          entries0 = (case arg2 of Number n \<Rightarrow> arg3 | NotNumber es \<Rightarrow> es);
          c = fresh lifetime0 limit0
      in case entries0 of
           None \<Rightarrow> Inr c
         | Some es \<Rightarrow>
             (case assign clock es c of
                (Inl e, c1) \<Rightarrow> Inl e
              | (Inr u, c1) \<Rightarrow> Inr (if limit0 < 1 then c1\<lparr>limit := size' c1\<rparr> else c1)))"

text \<open>
  The entries that the constructor loads: its third argument, or its second when
  that is not a number.
\<close>

definition given_entries ::
  "('k, 'v) limit_arg \<Rightarrow> ('k \<times> 'v) list option \<Rightarrow> ('k \<times> 'v) list option" where
  "given_entries arg2 arg3 = (case arg2 of Number n \<Rightarrow> arg3 | NotNumber es \<Rightarrow> es)"

text \<open>
  \<open>last_with_key k es j\<close>: the \<open>j\<close>-th pair of \<open>es\<close> is the last pair of \<open>es\<close> with the key
  \<open>k\<close>. \<open>assign\<close> stores the entries under their keys in the order given, so the entry
  of this pair is the one that the key map holds for \<open>k\<close> afterwards.
\<close>

definition last_with_key :: "'k \<Rightarrow> ('k \<times> 'v) list \<Rightarrow> nat \<Rightarrow> bool" where
  "last_with_key k es j \<longleftrightarrow> j < length es \<and> fst (es ! j) = k \<and> k \<notin> fst ` set (drop (Suc j) es)"

section \<open>Sequences of calls\<close>

text \<open>
  A caller that makes \<open>set\<close> calls one after the other; an error ends the sequence, as an
  uncaught exception does. Each call comes with the reading of the clock at that call.
\<close>

fun set_all ::
  "(int \<times> 'k \<times> 'v) list \<Rightarrow> ('k, 'v) LRUCache \<Rightarrow> (error + unit) \<times> ('k, 'v) LRUCache" where
  "set_all [] c = (Inr (), c)"
| "set_all (x # xs) c =
     (case set' (fst x) (fst (snd x)) (snd (snd x)) c of
        (Inl e, c1) \<Rightarrow> (Inl e, c1)
      | (Inr u, c1) \<Rightarrow> set_all xs c1)"

section \<open>Well-formed caches\<close>

text \<open>
  \<open>linked h older as newer\<close>: the entries \<open>as\<close> (least recently used first) are in the
  arena and doubly linked in this order; \<open>NEXT\<close> of the first is \<open>older\<close> and
  \<open>PREVIOUS\<close> of the last is \<open>newer\<close>.
\<close>

fun linked :: "('k, 'v) Entry list \<Rightarrow> addr option \<Rightarrow> addr list \<Rightarrow> addr option \<Rightarrow> bool" where
  "linked h older [] newer = True"
| "linked h older (a # as) newer =
     (a < length h \<and> NEXT (h ! a) = older
      \<and> PREVIOUS (h ! a) = (if as = [] then newer else Some (hd as))
      \<and> linked h (Some a) as newer)"

text \<open>
  \<open>wf_chain c as\<close>: the chain of \<open>c\<close> is exactly \<open>as\<close>, the two ends and the size agree with
  it, and the key map holds exactly the entries of the chain, each under its own key.
\<close>

definition wf_chain :: "('k, 'v) LRUCache \<Rightarrow> addr list \<Rightarrow> bool" where
  "wf_chain c as \<longleftrightarrow>
     distinct as \<and> linked (heap c) None as None
     \<and> tail c = (if as = [] then None else Some (hd as))
     \<and> head c = (if as = [] then None else Some (last as))
     \<and> size' c = int (length as)
     \<and> distinct (map fst (keymap c))
     \<and> set (keymap c) = set (map (\<lambda>a. (key (heap c ! a), a)) as)"

definition well_formed :: "('k, 'v) LRUCache \<Rightarrow> bool" where
  "well_formed c = (case chain c of None \<Rightarrow> False | Some as \<Rightarrow> wf_chain c as)"

text \<open>
  \<open>keeps_stamps c c'\<close>: every entry allocated in \<open>c\<close> is still allocated in \<open>c'\<close> and
  has the timestamp it had in \<open>c\<close>.
\<close>

definition keeps_stamps :: "('k, 'v) LRUCache \<Rightarrow> ('k, 'v) LRUCache \<Rightarrow> bool" where
  "keeps_stamps c c' \<longleftrightarrow> length (heap c) \<le> length (heap c')
     \<and> (\<forall>a < length (heap c). CREATED_AT (heap c' ! a) = CREATED_AT (heap c ! a))"

text \<open>
  \<open>keeps_keys c c'\<close>: every entry allocated in \<open>c\<close> is still allocated in \<open>c'\<close> and
  has the key it had in \<open>c\<close>.
\<close>

definition keeps_keys :: "('k, 'v) LRUCache \<Rightarrow> ('k, 'v) LRUCache \<Rightarrow> bool" where
  "keeps_keys c c' \<longleftrightarrow> length (heap c) \<le> length (heap c')
     \<and> (\<forall>a < length (heap c). key (heap c' ! a) = key (heap c ! a))"

text \<open>
  The state of the loop of \<open>assign\<close>: the entries allocated since the loop began (the
  addresses from \<open>n0\<close> on) are linked in the order of their allocation, \<open>l\<close> is the
  entry added last, \<open>tail\<close> is the first of them, and their pairs are \<open>ys\<close>.
  \<open>keyed\<close>: the key map holds exactly these entries, each under its own key.
\<close>

definition building :: "('k, 'v) LRUCache \<Rightarrow> nat \<Rightarrow> addr option \<Rightarrow> ('k \<times> 'v) list \<Rightarrow> bool" where
  "building c n0 l ys \<longleftrightarrow>
     n0 \<le> length (heap c)
     \<and> linked (heap c) None [n0 ..< length (heap c)] None
     \<and> l = (if n0 = length (heap c) then None else Some (length (heap c) - 1))
     \<and> (n0 < length (heap c) \<longrightarrow> tail c = Some n0)
     \<and> map (\<lambda>a. (key (heap c ! a), value' (heap c ! a))) [n0 ..< length (heap c)] = ys"

definition keyed :: "('k, 'v) LRUCache \<Rightarrow> nat \<Rightarrow> bool" where
  "keyed c n0 \<longleftrightarrow>
     distinct (map fst (keymap c))
     \<and> set (keymap c) = set (map (\<lambda>a. (key (heap c ! a), a)) [n0 ..< length (heap c)])"

text \<open>A cache without entries: no key, no end reference, size 0.\<close>

definition vacant :: "('k, 'v) LRUCache \<Rightarrow> bool" where
  "vacant c \<longleftrightarrow> size' c = 0 \<and> keymap c = [] \<and> tail c = None \<and> head c = None"

text \<open>Whether \<open>has\<close> finds the entry of \<open>k\<close> too old at time \<open>now\<close>.\<close>

definition expired :: "int \<Rightarrow> 'k \<Rightarrow> ('k, 'v) LRUCache \<Rightarrow> bool" where
  "expired now k c =
     (case map_of (keymap c) k of
        None \<Rightarrow> False
      | Some e \<Rightarrow> lifetime c \<noteq> 0 \<and> ageInMinutes now (heap c ! e) > of_int (lifetime c))"

section \<open>The class LRUMap of lru.js\<close>

text \<open>
  lru.js holds an older variant of the cache without lifetimes. Its entries have no
  timestamp, its most recently used end is the property \<open>newest\<close>, and \<open>get\<close> returns
  \<open>undefined\<close> for a key that is not cached. \<open>removeLRUItem\<close> writes a property
  \<open>head\<close> that no other method of this class reads.
\<close>

record ('k, 'v) MapEntry =
  m_key :: 'k
  m_value :: 'v
  m_PREVIOUS :: "addr option"
  m_NEXT :: "addr option"

record ('k, 'v) LRUMap =
  m_size :: int
  m_limit :: int
  m_tail :: "addr option"
  m_newest :: "addr option"
  m_head :: "addr option"
  m_keymap :: "('k \<times> addr) list"
  m_heap :: "('k, 'v) MapEntry list"

definition m_set_PREVIOUS :: "addr \<Rightarrow> addr option \<Rightarrow> ('k, 'v) LRUMap \<Rightarrow> ('k, 'v) LRUMap" where
  "m_set_PREVIOUS a p c = c\<lparr>m_heap := (m_heap c)[a := (m_heap c ! a)\<lparr>m_PREVIOUS := p\<rparr>]\<rparr>"

definition m_set_NEXT :: "addr \<Rightarrow> addr option \<Rightarrow> ('k, 'v) LRUMap \<Rightarrow> ('k, 'v) LRUMap" where
  "m_set_NEXT a n c = c\<lparr>m_heap := (m_heap c)[a := (m_heap c ! a)\<lparr>m_NEXT := n\<rparr>]\<rparr>"

definition m_set_value :: "addr \<Rightarrow> 'v \<Rightarrow> ('k, 'v) LRUMap \<Rightarrow> ('k, 'v) LRUMap" where
  "m_set_value a v c = c\<lparr>m_heap := (m_heap c)[a := (m_heap c ! a)\<lparr>m_value := v\<rparr>]\<rparr>"

definition LRUMap_fresh :: "int \<Rightarrow> ('k, 'v) LRUMap" where
  "LRUMap_fresh limit0 =
     \<lparr>m_size = 0, m_limit = limit0, m_tail = None, m_newest = None, m_head = None,
      m_keymap = [], m_heap = []\<rparr>"

definition LRUMap_markEntryAsUsed :: "addr \<Rightarrow> ('k, 'v) LRUMap \<Rightarrow> ('k, 'v) LRUMap" where
  "LRUMap_markEntryAsUsed entry c =
     (if m_newest c = Some entry then c
      else
        (let c1 = (case m_PREVIOUS (m_heap c ! entry) of
                     None \<Rightarrow> c
                   | Some p \<Rightarrow>
                       (let d = (if m_tail c = Some entry then c\<lparr>m_tail := Some p\<rparr> else c)
                        in m_set_NEXT p (m_NEXT (m_heap d ! entry)) d));
             c2 = (case m_NEXT (m_heap c1 ! entry) of
                     None \<Rightarrow> c1
                   | Some n \<Rightarrow> m_set_PREVIOUS n (m_PREVIOUS (m_heap c1 ! entry)) c1);
             c3 = m_set_PREVIOUS entry None c2;
             c4 = m_set_NEXT entry (m_newest c3) c3;
             c5 = (case m_newest c4 of
                     None \<Rightarrow> c4
                   | Some n \<Rightarrow> m_set_PREVIOUS n (Some entry) c4)
         in c5\<lparr>m_newest := Some entry\<rparr>))"

definition LRUMap_purgeRemovedEntry :: "addr \<Rightarrow> ('k, 'v) LRUMap \<Rightarrow> ('k, 'v) LRUMap" where
  "LRUMap_purgeRemovedEntry entry c =
     (let c1 = m_set_NEXT entry None c;
          c2 = m_set_PREVIOUS entry None c1
      in c2\<lparr>m_keymap := AList.delete (m_key (m_heap c2 ! entry)) (m_keymap c2)\<rparr>)"

definition LRUMap_removeLRUItem ::
  "('k, 'v) LRUMap \<Rightarrow> (error + ('k \<times> 'v) option) \<times> ('k, 'v) LRUMap" where
  "LRUMap_removeLRUItem c =
     (if m_size c = 0 then (Inr None, c)
      else if m_size c = 1 then
        (let c1 = c\<lparr>m_tail := None, m_head := None\<rparr>;
             c2 = c1\<lparr>m_size := m_size c1 - 1\<rparr>
         in case m_tail c of
              None \<Rightarrow> (Inl TypeError, c2)
            | Some entry \<Rightarrow>
                (let c3 = LRUMap_purgeRemovedEntry entry c2
                 in (Inr (Some (m_key (m_heap c3 ! entry), m_value (m_heap c3 ! entry))), c3)))
      else
        (case m_tail c of
           None \<Rightarrow> (Inl TypeError, c)
         | Some entry \<Rightarrow>
             (let c1 = c\<lparr>m_tail := m_PREVIOUS (m_heap c ! entry)\<rparr>
              in case m_tail c1 of
                   None \<Rightarrow> (Inl TypeError, c1)
                 | Some t \<Rightarrow>
                     (let c2 = m_set_NEXT t None c1;
                          c3 = c2\<lparr>m_size := m_size c2 - 1\<rparr>;
                          c4 = LRUMap_purgeRemovedEntry entry c3
                      in (Inr (Some (m_key (m_heap c4 ! entry), m_value (m_heap c4 ! entry))),
                          c4)))))"

definition LRUMap_set ::
  "'k \<Rightarrow> 'v \<Rightarrow> ('k, 'v) LRUMap \<Rightarrow> (error + unit) \<times> ('k, 'v) LRUMap" where
  "LRUMap_set k v c =
     (case map_of (m_keymap c) k of
        Some entry \<Rightarrow> (Inr (), LRUMap_markEntryAsUsed entry (m_set_value entry v c))
      | None \<Rightarrow>
          (let entry = length (m_heap c);
               c1 = c\<lparr>m_heap := m_heap c @
                      [\<lparr>m_key = k, m_value = v, m_PREVIOUS = None, m_NEXT = None\<rparr>]\<rparr>;
               c2 = c1\<lparr>m_keymap := AList.update k entry (m_keymap c1)\<rparr>;
               c3 = (case m_newest c2 of
                       Some n \<Rightarrow> m_set_NEXT entry (m_newest c2) (m_set_PREVIOUS n (Some entry) c2)
                     | None \<Rightarrow> c2\<lparr>m_tail := Some entry\<rparr>);
               c4 = c3\<lparr>m_newest := Some entry\<rparr>;
               c5 = c4\<lparr>m_size := m_size c4 + 1\<rparr>
           in if m_size c5 > m_limit c5
              then (case LRUMap_removeLRUItem c5 of
                      (Inl e, c6) \<Rightarrow> (Inl e, c6)
                    | (Inr r, c6) \<Rightarrow> (Inr (), c6))
              else (Inr (), c5)))"


fun m_walk :: "nat \<Rightarrow> ('k, 'v) MapEntry list \<Rightarrow> addr option \<Rightarrow> addr list option" where
  "m_walk n h None = Some []"
| "m_walk 0 h (Some a) = None"
| "m_walk (Suc n) h (Some a) =
     (case m_walk n h (m_PREVIOUS (h ! a)) of None \<Rightarrow> None | Some as \<Rightarrow> Some (a # as))"

definition LRUMap_entries :: "('k, 'v) LRUMap \<Rightarrow> ('k \<times> 'v) list option" where
  "LRUMap_entries c =
     map_option (map (\<lambda>a. (m_key (m_heap c ! a), m_value (m_heap c ! a))))
       (m_walk (length (m_heap c)) (m_heap c) (m_tail c))"

section \<open>Histories of calls\<close>

text \<open>
  The public operations as data, and a caller that makes calls one after the other on
  one cache and catches what they throw. \<open>perform\<close> gives the error a call raised (if
  any) and the cache after it; \<open>after_calls\<close> is the cache after the whole history;
  \<open>no_TypeError\<close> says that no call of the history ended in a \<open>TypeError\<close>.
\<close>

datatype ('k, 'v) call =
    Set int 'k 'v
  | Get int 'k
  | Has int 'k
  | Find 'k
  | Delete 'k
  | RemoveLRUItem
  | Clear
  | Assign "nat \<Rightarrow> int" "('k \<times> 'v) list"

definition raised :: "(error + 'a) \<times> 's \<Rightarrow> error option \<times> 's" where
  "raised r = (case fst r of Inl e \<Rightarrow> Some e | Inr x \<Rightarrow> None, snd r)"

fun perform :: "('k, 'v) call \<Rightarrow> ('k, 'v) LRUCache \<Rightarrow> error option \<times> ('k, 'v) LRUCache" where
  "perform (Set now k v) c = raised (set' now k v c)"
| "perform (Get now k) c = raised (get now k c)"
| "perform (Has now k) c = (None, snd (has now k c))"
| "perform (Find k) c = (None, c)"
| "perform (Delete k) c = (None, snd (delete' k c))"
| "perform RemoveLRUItem c = raised (removeLRUItem c)"
| "perform Clear c = (None, clear c)"
| "perform (Assign clock es) c = raised (assign clock es c)"

fun after_calls :: "('k, 'v) call list \<Rightarrow> ('k, 'v) LRUCache \<Rightarrow> ('k, 'v) LRUCache" where
  "after_calls [] c = c"
| "after_calls (x # xs) c = after_calls xs (snd (perform x c))"

fun no_TypeError :: "('k, 'v) call list \<Rightarrow> ('k, 'v) LRUCache \<Rightarrow> bool" where
  "no_TypeError [] c = True"
| "no_TypeError (x # xs) c =
     (fst (perform x c) \<noteq> Some TypeError \<and> no_TypeError xs (snd (perform x c)))"

section \<open>Elements of the iterable given to assign\<close>

text \<open>
  \<open>assign\<close> reads the properties \<open>0\<close> and \<open>1\<close> of every element of its argument.
  An element is meant to be a two-element array \<open>[key, value]\<close>; of an object as
  \<open>toJSON\<close> builds it (\<open>{key, value}\<close>) both properties are \<open>undefined\<close>. A cache
  that is loaded from arbitrary elements has keys and values that may be \<open>undefined\<close>
  (\<open>None\<close>).
\<close>

datatype ('k, 'v) element = Array2 'k 'v | Object "('k, 'v) json_entry"

fun element_0 :: "('k, 'v) element \<Rightarrow> 'k option" where
  "element_0 (Array2 k v) = Some k"
| "element_0 (Object r) = None"

fun element_1 :: "('k, 'v) element \<Rightarrow> 'v option" where
  "element_1 (Array2 k v) = Some v"
| "element_1 (Object r) = None"

definition assign_elements ::
  "(nat \<Rightarrow> int) \<Rightarrow> ('k, 'v) element list \<Rightarrow> ('k option, 'v option) LRUCache
     \<Rightarrow> (error + unit) \<times> ('k option, 'v option) LRUCache" where
  "assign_elements clock xs c = assign clock (map (\<lambda>x. (element_0 x, element_1 x)) xs) c"

text \<open>The pair \<open>[key, value]\<close> of a record of \<open>toJSON\<close>.\<close>

definition pair_of :: "('k, 'v) json_entry \<Rightarrow> 'k \<times> 'v" where
  "pair_of r = (json_key r, json_value r)"

section \<open>Basic facts\<close>

lemmas cache_ops = set'_def insertEntry_def removeLRUItem_def purgeRemovedEntry_def
  set_NEXT_def set_PREVIOUS_def set_value_def new_Entry_def fresh_def Let_def markEntryAsUsed_def

lemmas map_ops = LRUMap_set_def LRUMap_removeLRUItem_def LRUMap_purgeRemovedEntry_def
  m_set_NEXT_def m_set_PREVIOUS_def m_set_value_def LRUMap_fresh_def Let_def
  LRUMap_markEntryAsUsed_def LRUMap_entries_def

lemma new_LRUCache_plain: "new_LRUCache clock L (Number n) None = Inr (fresh L n)"
  by (simp add: new_LRUCache_def)

lemma set_PREVIOUS_fields [simp]:
  "lifetime (set_PREVIOUS a p c) = lifetime c" "size' (set_PREVIOUS a p c) = size' c"
  "limit (set_PREVIOUS a p c) = limit c" "tail (set_PREVIOUS a p c) = tail c"
  "head (set_PREVIOUS a p c) = head c" "keymap (set_PREVIOUS a p c) = keymap c"
  "own_CREATED_AT (set_PREVIOUS a p c) = own_CREATED_AT c"
  "length (heap (set_PREVIOUS a p c)) = length (heap c)"
  by (simp_all add: set_PREVIOUS_def)

lemma set_NEXT_fields [simp]:
  "lifetime (set_NEXT a p c) = lifetime c" "size' (set_NEXT a p c) = size' c"
  "limit (set_NEXT a p c) = limit c" "tail (set_NEXT a p c) = tail c"
  "head (set_NEXT a p c) = head c" "keymap (set_NEXT a p c) = keymap c"
  "own_CREATED_AT (set_NEXT a p c) = own_CREATED_AT c"
  "length (heap (set_NEXT a p c)) = length (heap c)"
  by (simp_all add: set_NEXT_def)

lemma set_value_fields [simp]:
  "lifetime (set_value a v c) = lifetime c" "size' (set_value a v c) = size' c"
  "limit (set_value a v c) = limit c" "tail (set_value a v c) = tail c"
  "head (set_value a v c) = head c" "keymap (set_value a v c) = keymap c"
  "own_CREATED_AT (set_value a v c) = own_CREATED_AT c"
  "length (heap (set_value a v c)) = length (heap c)"
  by (simp_all add: set_value_def)

lemma nth_update_field:
  assumes "\<And>e. f (g e) = f e"
  shows "f (xs[a := g (xs ! a)] ! b) = f (xs ! b)"
  using assms by (cases "a < length xs") (auto simp: nth_list_update list_update_beyond)

lemma set_PREVIOUS_heap [simp]:
  "key (heap (set_PREVIOUS a p c) ! b) = key (heap c ! b)"
  "value' (heap (set_PREVIOUS a p c) ! b) = value' (heap c ! b)"
  "CREATED_AT (heap (set_PREVIOUS a p c) ! b) = CREATED_AT (heap c ! b)"
  "NEXT (heap (set_PREVIOUS a p c) ! b) = NEXT (heap c ! b)"
  by (simp_all add: set_PREVIOUS_def nth_update_field[where g="\<lambda>e. e\<lparr>PREVIOUS := p\<rparr>"])

lemma set_NEXT_heap [simp]:
  "key (heap (set_NEXT a p c) ! b) = key (heap c ! b)"
  "value' (heap (set_NEXT a p c) ! b) = value' (heap c ! b)"
  "CREATED_AT (heap (set_NEXT a p c) ! b) = CREATED_AT (heap c ! b)"
  "PREVIOUS (heap (set_NEXT a p c) ! b) = PREVIOUS (heap c ! b)"
  by (simp_all add: set_NEXT_def nth_update_field[where g="\<lambda>e. e\<lparr>NEXT := p\<rparr>"])

lemma set_value_heap [simp]:
  "key (heap (set_value a v c) ! b) = key (heap c ! b)"
  "CREATED_AT (heap (set_value a v c) ! b) = CREATED_AT (heap c ! b)"
  "PREVIOUS (heap (set_value a v c) ! b) = PREVIOUS (heap c ! b)"
  "NEXT (heap (set_value a v c) ! b) = NEXT (heap c ! b)"
  by (simp_all add: set_value_def nth_update_field[where g="\<lambda>e. e\<lparr>value' := v\<rparr>"])

lemma set_PREVIOUS_same [simp]:
  "a < length (heap c) \<Longrightarrow> PREVIOUS (heap (set_PREVIOUS a p c) ! a) = p"
  by (simp add: set_PREVIOUS_def)
lemma set_PREVIOUS_other [simp]:
  "a \<noteq> b \<Longrightarrow> PREVIOUS (heap (set_PREVIOUS a p c) ! b) = PREVIOUS (heap c ! b)"
  by (simp add: set_PREVIOUS_def)
lemma set_NEXT_same [simp]:
  "a < length (heap c) \<Longrightarrow> NEXT (heap (set_NEXT a p c) ! a) = p"
  by (simp add: set_NEXT_def)
lemma set_NEXT_other [simp]:
  "a \<noteq> b \<Longrightarrow> NEXT (heap (set_NEXT a p c) ! b) = NEXT (heap c ! b)"
  by (simp add: set_NEXT_def)
lemma set_value_same [simp]:
  "a < length (heap c) \<Longrightarrow> value' (heap (set_value a v c) ! a) = v"
  by (simp add: set_value_def)
lemma set_value_other [simp]:
  "a \<noteq> b \<Longrightarrow> value' (heap (set_value a v c) ! b) = value' (heap c ! b)"
  by (simp add: set_value_def)

section \<open>Rounding to doubles\<close>

text \<open>
  A whole number below \<open>2^53\<close> in magnitude is a double. The double of a number between
  \<open>1 / 60000\<close> and \<open>2^53\<close> in magnitude differs from it by at most the fraction
  \<open>2^-53\<close> of it. So for two readings of the clock less than \<open>2^53\<close> milliseconds apart
  the age that \<open>has\<close> computes exceeds a whole number of minutes exactly when the
  difference of the readings exceeds that many minutes.
\<close>

lemma roundTiesToEven_error: "\<bar>of_int (roundTiesToEven x) - x\<bar> \<le> 1 / 2"
proof -
  have "of_int \<lfloor>x\<rfloor> \<le> x" "x < of_int \<lfloor>x\<rfloor> + 1" by linarith+
  then show ?thesis by (auto simp add: roundTiesToEven_def Let_def)
qed

lemma roundTiesToEven_of_int [simp]: "roundTiesToEven (of_int m) = m"
  by (simp add: roundTiesToEven_def)

lemma scale_up_of_int: "scale_up n (of_int m) = of_int m"
proof (induction n arbitrary: m)
  case 0
  show ?case by simp
next
  case (Suc n)
  have e: "2 * (of_int m :: rat) = of_int (2 * m)" by simp
  have "scale_up n (2 * of_int m) = of_int (2 * m)" unfolding e by (rule Suc)
  then show ?case by simp
qed

lemma scale_up_error:
  "0 < x \<Longrightarrow> 4503599627370496 \<le> x * 2 ^ n \<Longrightarrow> \<bar>scale_up n x - x\<bar> \<le> x / 9007199254740992"
proof (induction n arbitrary: x)
  case 0
  with roundTiesToEven_error[of x] show ?case by simp
next
  case (Suc n)
  show ?case
  proof (cases "4503599627370496 \<le> x")
    case True
    with roundTiesToEven_error[of x] show ?thesis by simp
  next
    case False
    from Suc.prems have "0 < 2 * x" "4503599627370496 \<le> (2 * x) * 2 ^ n" by (simp_all add: mult.assoc mult.left_commute)
    from Suc.IH[OF this] have "\<bar>scale_up n (2 * x) - 2 * x\<bar> \<le> 2 * x / 9007199254740992" .
    moreover have "\<bar>scale_up n (2 * x) / 2 - x\<bar> = \<bar>scale_up n (2 * x) - 2 * x\<bar> / 2" by (simp add: field_simps abs_if)
    ultimately show ?thesis using False by simp
  qed
qed

lemma double_of_minus: "double_of (- x) = - double_of x"
  by (simp add: double_of_def)

lemma double_of_of_int:
  assumes "\<bar>m\<bar> < 9007199254740992"
  shows "double_of (of_int m) = of_int m"
proof -
  have "(of_int m :: rat) < 9007199254740992" "- (of_int m :: rat) < 9007199254740992"
    using assms by (simp_all add: abs_less_iff)
  then show ?thesis using scale_up_of_int[of 1074 m] scale_up_of_int[of 1074 "- m"]
    by (simp add: double_of_def)
qed

lemma double_of_error:
  assumes "1 / 60000 \<le> \<bar>x\<bar>" "\<bar>x\<bar> < 9007199254740992"
  shows "\<bar>double_of x - x\<bar> \<le> \<bar>x\<bar> / 9007199254740992"
proof -
  have big: "(4503599627370496::rat) \<le> 1 / 60000 * 2 ^ 1074" by simp
  show ?thesis
  proof (cases "0 < x")
    case True
    with assms have "1 / 60000 * 2 ^ 1074 \<le> x * 2 ^ 1074" by simp
    with big have "4503599627370496 \<le> x * 2 ^ 1074" by linarith
    from scale_up_error[OF True this] True assms show ?thesis by (simp add: double_of_def)
  next
    case False
    with assms have n: "0 < - x" by auto
    with assms have "1 / 60000 * 2 ^ 1074 \<le> (- x) * 2 ^ 1074" by simp
    with big have "4503599627370496 \<le> (- x) * 2 ^ 1074" by linarith
    from scale_up_error[OF n this] n assms show ?thesis by (simp add: double_of_def)
  qed
qed

lemma double_quotient_gt_iff:
  fixes d L :: int
  assumes "\<bar>d\<bar> < 9007199254740992"
  shows "of_int L < double_of (double_of (of_int d) / 60000) \<longleftrightarrow> 60000 * L < d"
proof -
  let ?x = "(of_int d :: rat) / 60000"
  have d: "double_of (of_int d) = of_int d" by (rule double_of_of_int[OF assms])
  have ax: "\<bar>?x\<bar> < 9007199254740992 / 60000"
    using assms by (simp add: abs_less_iff)
  show ?thesis
  proof (cases "d = 60000 * L")
    case True
    with assms have "\<bar>L\<bar> < 9007199254740992" by (simp add: abs_mult)
    from True have "?x = of_int L" by simp
    with double_of_of_int[OF \<open>\<bar>L\<bar> < 9007199254740992\<close>] True show ?thesis unfolding d by simp
  next
    case False
    then have nz: "d \<noteq> 0 \<or> L \<noteq> 0" by auto
    show ?thesis
    proof (cases "d = 0")
      case True
      with False show ?thesis by (simp add: d double_of_def)
    next
      case dn: False
      then have "1 \<le> \<bar>d\<bar>" by simp
      then have "(1::rat) \<le> \<bar>of_int d\<bar>" by (metis of_int_1_le_iff of_int_abs)
      then have lo: "1 / 60000 \<le> \<bar>?x\<bar>" by simp
      from ax have hi: "\<bar>?x\<bar> < 9007199254740992" by simp
      define x where "x = (of_int d :: rat) / 60000"
      define y where "y = double_of x"
      from double_of_error[OF lo hi] ax have "\<bar>y - x\<bar> < 1 / 60000" by (simp add: x_def y_def)
      then have e: "y - x < 1 / 60000" "x - y < 1 / 60000" by linarith+
      have g: "of_int L < double_of (double_of (of_int d) / 60000) \<longleftrightarrow> of_int L < y"
        by (simp add: d x_def y_def)
      show ?thesis
      proof (cases "60000 * L < d")
        case True
        then have "60000 * L + 1 \<le> d" by simp
        then have "(of_int (60000 * L + 1) :: rat) \<le> of_int d" by (simp only: of_int_le_iff)
        then have "of_int L + 1 / 60000 \<le> x" by (simp add: x_def field_simps)
        with e have "of_int L < y" by linarith
        with True show ?thesis by (simp only: g)
      next
        case F: False
        with False have "d + 1 \<le> 60000 * L" by simp
        then have "(of_int (d + 1) :: rat) \<le> of_int (60000 * L)" by (simp only: of_int_le_iff)
        then have "x + 1 / 60000 \<le> of_int L" by (simp add: x_def field_simps)
        with e have "\<not> of_int L < y" by linarith
        with F show ?thesis by (simp only: g)
      qed
    qed
  qed
qed

lemma ageInMinutes_gt_iff:
  "\<bar>now - CREATED_AT e\<bar> < 9007199254740992 \<Longrightarrow>
   of_int L < ageInMinutes now e \<longleftrightarrow> 60000 * L < now - CREATED_AT e"
  unfolding ageInMinutes_def by (rule double_quotient_gt_iff)

text \<open>Equations for evaluation that compare whole numbers where this is the same.\<close>

lemma has_code [code]:
  "has now k c =
     (case map_of (keymap c) k of
        Some entry \<Rightarrow>
          if lifetime c = 0 then (True, c)
          else if (if \<bar>now - CREATED_AT (heap c ! entry)\<bar> < 9007199254740992
                   then 60000 * lifetime c < now - CREATED_AT (heap c ! entry)
                   else ageInMinutes now (heap c ! entry) > of_int (lifetime c))
               then (False, snd (delete' k c))
               else (True, c)
      | None \<Rightarrow> (False, c))"
  by (simp add: has_def ageInMinutes_gt_iff split: option.splits)

lemma expired_code [code]:
  "expired now k c =
     (case map_of (keymap c) k of
        None \<Rightarrow> False
      | Some e \<Rightarrow> lifetime c \<noteq> 0
          \<and> (if \<bar>now - CREATED_AT (heap c ! e)\<bar> < 9007199254740992
               then 60000 * lifetime c < now - CREATED_AT (heap c ! e)
               else ageInMinutes now (heap c ! e) > of_int (lifetime c)))"
  by (auto simp add: expired_def ageInMinutes_gt_iff split: option.splits)

lemma ageInMinutes_rounds:
  "ageInMinutes 8639999999940001
     \<lparr>key = k, value' = v, CREATED_AT = - 8640000000000000, PREVIOUS = None, NEXT = None\<rparr>
   = 287999999999"
  unfolding ageInMinutes_def by code_simp

section \<open>The bound of the traversal\<close>

text \<open>
  A walk that ends visits no entry twice, so it visits at most as many entries as are
  allocated: the bound that \<open>chain\<close> gives to \<open>walk\<close> loses no walk that ends, and
  \<open>chain c = None\<close> says that the loop of the source does not end.
\<close>

lemma walk_length: "walk n h p = Some as \<Longrightarrow> length as \<le> n"
proof (induction n h p arbitrary: as rule: walk.induct)
  case (3 n h a)
  then show ?case by (auto split: option.splits)
qed simp_all

lemma walk_more_fuel: "walk n h p = Some as \<Longrightarrow> length as \<le> m \<Longrightarrow> walk m h p = Some as"
proof (induction n h p arbitrary: as m rule: walk.induct)
  case (3 n h a)
  from "3.prems"(1) obtain bs where w: "walk n h (PREVIOUS (h ! a)) = Some bs" and as: "as = a # bs"
    by (auto split: option.splits)
  from "3.prems"(2) as obtain m' where m: "m = Suc m'" and l: "length bs \<le> m'" by (cases m) auto
  from "3.IH"[OF w l] show ?case by (simp add: m as)
qed simp_all

lemma walk_suffix:
  "walk n h p = Some (xs @ a # ys) \<Longrightarrow> \<exists>k. walk k h (Some a) = Some (a # ys)"
proof (induction n h p arbitrary: xs rule: walk.induct)
  case (3 n h b)
  from "3.prems" obtain bs where w: "walk n h (PREVIOUS (h ! b)) = Some bs" and e: "xs @ a # ys = b # bs"
    by (auto split: option.splits)
  show ?case
  proof (cases xs)
    case Nil
    with e have "a = b" "ys = bs" by simp_all
    with w have "walk (Suc n) h (Some a) = Some (a # ys)" by simp
    then show ?thesis by blast
  next
    case (Cons x xs')
    with e have "bs = xs' @ a # ys" by simp
    with w "3.IH"[of xs'] show ?thesis by simp
  qed
qed simp_all

lemma walk_distinct: "walk n h p = Some as \<Longrightarrow> distinct as"
proof (induction n h p arbitrary: as rule: walk.induct)
  case (3 n h a)
  from "3.prems" obtain bs where w: "walk n h (PREVIOUS (h ! a)) = Some bs" and as: "as = a # bs"
    by (auto split: option.splits)
  from "3.IH"[OF w] have d: "distinct bs" .
  have "a \<notin> set bs"
  proof
    assume "a \<in> set bs"
    then obtain xs ys where s: "bs = xs @ a # ys" by (auto simp: in_set_conv_decomp)
    from walk_suffix[OF w[unfolded s]] obtain k where k: "walk k h (Some a) = Some (a # ys)" by auto
    from walk_more_fuel[OF k, of "Suc n"] walk_length[OF w] s "3.prems" as
    show False by simp
  qed
  with d as show ?case by simp
qed simp_all

lemma walk_in_range:
  "closed h \<Longrightarrow> (case p of None \<Rightarrow> True | Some a \<Rightarrow> a < length h) \<Longrightarrow> walk n h p = Some as
   \<Longrightarrow> set as \<subseteq> {..< length h}"
proof (induction n h p arbitrary: as rule: walk.induct)
  case (3 n h a)
  from "3.prems"(3) obtain bs where w: "walk n h (PREVIOUS (h ! a)) = Some bs" and as: "as = a # bs"
    by (auto split: option.splits)
  from "3.prems"(1,2) have "case PREVIOUS (h ! a) of None \<Rightarrow> True | Some b \<Rightarrow> b < length h"
    by (simp add: closed_def)
  from "3.IH"[OF "3.prems"(1) this w] "3.prems"(2) as show ?case by simp
qed simp_all

lemma walk_fuel_enough:
  assumes "closed h" "case p of None \<Rightarrow> True | Some a \<Rightarrow> a < length h" "walk n h p = Some as"
  shows "walk (length h) h p = Some as"
proof -
  from walk_in_range[OF assms] have "card (set as) \<le> card {..< length h}" by (intro card_mono) simp_all
  with walk_distinct[OF assms(3)] have "length as \<le> length h" by (simp add: distinct_card)
  from walk_more_fuel[OF assms(3) this] show ?thesis .
qed

lemma walk_never_ends:
  assumes "closed h" "case p of None \<Rightarrow> True | Some a \<Rightarrow> a < length h" "walk (length h) h p = None"
  shows "walk n h p = None"
proof (cases "walk n h p")
  case (Some as)
  from walk_fuel_enough[OF assms(1,2) Some] assms(3) show ?thesis by simp
qed simp

section \<open>Eviction order\<close>

text \<open>
  C5. Capacity 3 and the sets of four distinct keys \<open>A, B, C, D\<close> in this order: the
  first three sets succeed; \<open>removeLRUItem\<close> called then (before \<open>D\<close> is set) returns
  \<open>(A, a)\<close>; the set of \<open>D\<close> succeeds and leaves exactly \<open>B, C, D\<close> in the cache, in
  this order from least to most recently used, with size 3.
\<close>

theorem set_beyond_capacity_evicts_oldest:
  assumes "distinct [A, B, C, D]"
  shows "new_LRUCache clock L (Number 3) None = Inr (fresh L 3)
     \<and> (\<exists>c3 c4. set_all [(t1, A, a), (t2, B, b), (t3, C, c)] (fresh L 3) = (Inr (), c3)
          \<and> fst (removeLRUItem c3) = Inr (Some (A, a))
          \<and> set' t4 D d c3 = (Inr (), c4)
          \<and> entries c4 = Some [(B, b), (C, c), (D, d)]
          \<and> map fst (keymap c4) = [B, C, D] \<and> size' c4 = 3)"
  using assms by (auto simp add: cache_ops new_LRUCache_plain entries_def chain_def numeral_3_eq_3)

theorem set_beyond_capacity_evicts_oldest_witness:
  "distinct [''A'', ''B'', ''C'', ''D'']
   \<and> (\<exists>c3 c4. set_all [(1, ''A'', 10::int), (2, ''B'', 20), (3, ''C'', 30)] (fresh 0 3) = (Inr (), c3)
          \<and> fst (removeLRUItem c3) = Inr (Some (''A'', 10))
          \<and> set' 4 ''D'' 40 c3 = (Inr (), c4)
          \<and> entries c4 = Some [(''B'', 20), (''C'', 30), (''D'', 40)]
          \<and> map fst (keymap c4) = [''B'', ''C'', ''D''] \<and> size' c4 = 3)"
proof -
  have d: "distinct [''A'', ''B'', ''C'', ''D'']" by simp
  from set_beyond_capacity_evicts_oldest[OF d, of "\<lambda>i. 0" 0 1 10 2 20 3 30 4 40] d
  show ?thesis by blast
qed

section \<open>Capacity 0\<close>

lemma set'_vacant:
  assumes "vacant c" "limit c = 0"
  shows "fst (set' now k v c) = Inr () \<and> vacant (snd (set' now k v c))
     \<and> limit (snd (set' now k v c)) = 0"
  using assms by (simp add: vacant_def cache_ops)

lemma set_all_vacant:
  "vacant c \<Longrightarrow> limit c = 0 \<Longrightarrow>
   fst (set_all xs c) = Inr () \<and> vacant (snd (set_all xs c)) \<and> limit (snd (set_all xs c)) = 0"
proof (induction xs arbitrary: c)
  case Nil
  then show ?case by simp
next
  case (Cons x xs)
  from set'_vacant[OF Cons.prems, of "fst x" "fst (snd x)" "snd (snd x)"]
  obtain c1 where s: "set' (fst x) (fst (snd x)) (snd (snd x)) c = (Inr (), c1)"
    and v: "vacant c1" "limit c1 = 0"
    by (cases "set' (fst x) (fst (snd x)) (snd (snd x)) c") auto
  from Cons.IH[OF v] s show ?case by simp
qed

lemma set'_vacant_steps:
  assumes "vacant c" "limit c = 0"
  shows "fst (insertEntry now k v c) = Inr ()"
    and "size' (snd (insertEntry now k v c)) = 1"
    and "keymap (snd (insertEntry now k v c)) = [(k, length (heap c))]"
    and "entries (snd (insertEntry now k v c)) = Some [(k, v)]"
    and "removeLRUItem (snd (insertEntry now k v c)) = (Inr (Some (k, v)), snd (set' now k v c))"
    and "fst (set' now k v c) = Inr ()"
  using assms
  by (simp_all add: vacant_def cache_ops entries_def chain_def nth_append)

text \<open>
  C2, as stated, fails: in a cache built with capacity 0 and no entries, one set of one
  key returns normally, and afterwards the size is 0 (not 1) and the key is not there.
\<close>

theorem capacity_zero_is_not_unbounded:
  "new_LRUCache (\<lambda>i. 0) 0 (Number 0) None = Inr (fresh 0 0 :: (string, int) LRUCache)
   \<and> fst (set' 0 ''a'' (1::int) (fresh 0 0)) = Inr ()
   \<and> size' (snd (set' 0 ''a'' (1::int) (fresh 0 0))) = 0
   \<and> fst (has 0 ''a'' (snd (set' 0 ''a'' (1::int) (fresh 0 0)))) = False"
  by (simp add: cache_ops has_def new_LRUCache_plain)

text \<open>
  C2, amended. A cache built with capacity 0 and no entries holds nothing. Every
  sequence of sets runs without error, and after it the size is 0, the key map and the
  chain are empty, \<open>has\<close> is false and \<open>get\<close> raises NotFound for every key. A set in the
  state after any such sequence inserts its entry (the cache then holds exactly this
  entry, with size 1) and, since the size 1 exceeds the limit 0, evicts it again by one
  call of \<open>removeLRUItem\<close>, which returns this key and value; the set returns normally
  and leaves the cache without entries.
\<close>

theorem capacity_zero_holds_nothing:
  fixes xs :: "(int \<times> 'k \<times> 'v) list"
  shows "new_LRUCache clock L (Number 0) None = Inr (fresh L 0 :: ('k, 'v) LRUCache)
   \<and> fst (set_all xs (fresh L 0)) = Inr ()
   \<and> size' (snd (set_all xs (fresh L 0))) = 0
   \<and> keymap (snd (set_all xs (fresh L 0))) = []
   \<and> entries (snd (set_all xs (fresh L 0))) = Some []
   \<and> (\<forall>now k. fst (has now k (snd (set_all xs (fresh L 0)))) = False)
   \<and> (\<forall>now k. fst (get now k (snd (set_all xs (fresh L 0)))) = Inl NotFound)
   \<and> (\<forall>now k v.
        fst (insertEntry now k v (snd (set_all xs (fresh L 0)))) = Inr ()
        \<and> size' (snd (insertEntry now k v (snd (set_all xs (fresh L 0))))) = 1
        \<and> entries (snd (insertEntry now k v (snd (set_all xs (fresh L 0))))) = Some [(k, v)]
        \<and> removeLRUItem (snd (insertEntry now k v (snd (set_all xs (fresh L 0)))))
            = (Inr (Some (k, v)), snd (set' now k v (snd (set_all xs (fresh L 0)))))
        \<and> fst (set' now k v (snd (set_all xs (fresh L 0)))) = Inr ()
        \<and> size' (snd (set' now k v (snd (set_all xs (fresh L 0))))) = 0
        \<and> entries (snd (set' now k v (snd (set_all xs (fresh L 0))))) = Some []
        \<and> find' k (snd (set' now k v (snd (set_all xs (fresh L 0))))) = None)"
proof -
  define c where "c = snd (set_all xs (fresh L 0 :: ('k, 'v) LRUCache))"
  have v0: "vacant (fresh L 0 :: ('k, 'v) LRUCache)" "limit (fresh L 0 :: ('k, 'v) LRUCache) = 0"
    by (simp_all add: vacant_def fresh_def)
  from set_all_vacant[OF v0, of xs]
  have ok: "fst (set_all xs (fresh L 0 :: ('k, 'v) LRUCache)) = Inr ()"
    and v: "vacant c" and l: "limit c = 0" by (simp_all add: c_def)
  have e: "entries c = Some []" "\<And>now k. fst (has now k c) = False"
    "\<And>now k. fst (get now k c) = Inl NotFound"
    using v by (simp_all add: vacant_def entries_def chain_def has_def get_def)
  have s: "fst (insertEntry now k v c) = Inr ()
        \<and> size' (snd (insertEntry now k v c)) = 1
        \<and> entries (snd (insertEntry now k v c)) = Some [(k, v)]
        \<and> removeLRUItem (snd (insertEntry now k v c)) = (Inr (Some (k, v)), snd (set' now k v c))
        \<and> fst (set' now k v c) = Inr ()
        \<and> size' (snd (set' now k v c)) = 0
        \<and> entries (snd (set' now k v c)) = Some []
        \<and> find' k (snd (set' now k v c)) = None" for now k v
  proof -
    from set'_vacant[OF v l, of now k v] have v': "vacant (snd (set' now k v c))" by simp
    then have "size' (snd (set' now k v c)) = 0" "entries (snd (set' now k v c)) = Some []"
      "find' k (snd (set' now k v c)) = None"
      by (simp_all add: vacant_def entries_def chain_def find'_def)
    with set'_vacant_steps[OF v l, of now k v] show ?thesis by simp
  qed
  from v have "size' c = 0" "keymap c = []" by (simp_all add: vacant_def)
  with ok e s show ?thesis unfolding c_def by (simp add: new_LRUCache_plain)
qed

section \<open>Bulk load with duplicate keys\<close>

text \<open>
  C6 fails on \<open>assign\<close> with a key given twice: \<open>assign\<close> returns normally, the key map
  has the one key and the size is 1, but the chain from the oldest end holds two
  entries (both under that key).
\<close>

theorem assign_duplicate_key_breaks_size:
  "fst (assign clock [(k, v1), (k, v2)] (fresh L 5)) = Inr ()
   \<and> size' (snd (assign clock [(k, v1), (k, v2)] (fresh L 5))) = 1
   \<and> map fst (keymap (snd (assign clock [(k, v1), (k, v2)] (fresh L 5)))) = [k]
   \<and> chain (snd (assign clock [(k, v1), (k, v2)] (fresh L 5))) = Some [0, 1]
   \<and> entries (snd (assign clock [(k, v1), (k, v2)] (fresh L 5))) = Some [(k, v1), (k, v2)]"
  by (simp add: assign_def assign_step_def cache_ops entries_def chain_def numeral_2_eq_2)

section \<open>Removing the only entry\<close>

text \<open>
  C7 fails in lru.js: after one set and \<open>removeLRUItem\<close> on the cache of one entry, the
  entry is returned and the size is 0, but \<open>newest\<close> still refers to the removed entry
  (the method clears \<open>head\<close> instead). The next set links its entry behind that stale
  entry and never sets \<open>tail\<close>: the key map has the new key, the traversal from the
  oldest end yields nothing.
\<close>

theorem LRUMap_removeLRUItem_leaves_newest:
  "fst (LRUMap_removeLRUItem (snd (LRUMap_set k v (LRUMap_fresh 3)))) = Inr (Some (k, v))
   \<and> m_size (snd (LRUMap_removeLRUItem (snd (LRUMap_set k v (LRUMap_fresh 3))))) = 0
   \<and> m_tail (snd (LRUMap_removeLRUItem (snd (LRUMap_set k v (LRUMap_fresh 3))))) = None
   \<and> m_newest (snd (LRUMap_removeLRUItem (snd (LRUMap_set k v (LRUMap_fresh 3))))) = Some 0
   \<and> fst (LRUMap_set k' v' (snd (LRUMap_removeLRUItem (snd (LRUMap_set k v (LRUMap_fresh 3))))))
       = Inr ()
   \<and> m_tail (snd (LRUMap_set k' v' (snd (LRUMap_removeLRUItem (snd (LRUMap_set k v (LRUMap_fresh 3)))))))
       = None
   \<and> LRUMap_entries
        (snd (LRUMap_set k' v' (snd (LRUMap_removeLRUItem (snd (LRUMap_set k v (LRUMap_fresh 3)))))))
       = Some []
   \<and> m_keymap (snd (LRUMap_set k' v' (snd (LRUMap_removeLRUItem (snd (LRUMap_set k v (LRUMap_fresh 3)))))))
       = [(k', 1)]"
  by (simp add: map_ops)

section \<open>Overflow in assign\<close>

lemma assign_loop_overflow:
  "0 \<le> n \<Longrightarrow> n < int (length xs) \<Longrightarrow>
   fst (assign_loop clock i xs lastAdded (Some n) c) = Inl Overflow
   \<and> size' (snd (assign_loop clock i xs lastAdded (Some n) c)) = size' c
   \<and> head (snd (assign_loop clock i xs lastAdded (Some n) c)) = head c
   \<and> limit (snd (assign_loop clock i xs lastAdded (Some n) c)) = limit c
   \<and> fst ` set (keymap (snd (assign_loop clock i xs lastAdded (Some n) c)))
       = fst ` set (keymap c) \<union> fst ` set (take (Suc (nat n)) xs)
   \<and> (distinct (map fst (keymap c)) \<longrightarrow>
        distinct (map fst (keymap (snd (assign_loop clock i xs lastAdded (Some n) c)))))
   \<and> length (heap (snd (assign_loop clock i xs lastAdded (Some n) c)))
       = length (heap c) + Suc (nat n)"
proof (induction xs arbitrary: i lastAdded n c)
  case Nil
  then show ?case by simp
next
  case (Cons x xs)
  show ?case
  proof (cases "n = 0")
    case True
    then show ?thesis
      by (cases lastAdded)
         (simp_all add: assign_step_def Let_def set_NEXT_def set_PREVIOUS_def AList.dom_update
            AList.distinct_update)
  next
    case False
    with Cons.prems have n: "0 \<le> n - 1" "n - 1 < int (length xs)" by auto
    have sn: "Suc (nat (n - 1)) = nat n" using False Cons.prems by auto
    show ?thesis
      using False Cons.IH[OF n]
      by (cases lastAdded)
         (simp_all add: assign_step_def Let_def set_NEXT_def set_PREVIOUS_def AList.dom_update
            AList.distinct_update sn Un_assoc)
  qed
qed

text \<open>
  C10. On a cache with a positive limit, \<open>assign\<close> of more pairs than the limit (the
  first limit + 1 keys distinct) raises Overflow, and the cache it leaves has exactly
  these limit + 1 keys in the key map (the keys from before the call are gone) while
  the size and the newest end are those from before the call. When the key map had at
  most limit keys before, it is a different key map now.
\<close>

theorem assign_overflow_leaves_partial_state:
  assumes "0 < limit c" "limit c < int (length es)"
    and "distinct (map fst (take (nat (limit c) + 1) es))"
    and "int (length (keymap c)) \<le> limit c"
  shows "fst (assign clock es c) = Inl Overflow
     \<and> fst ` set (keymap (snd (assign clock es c))) = fst ` set (take (nat (limit c) + 1) es)
     \<and> int (length (keymap (snd (assign clock es c)))) = limit c + 1
     \<and> size' (snd (assign clock es c)) = size' c
     \<and> head (snd (assign clock es c)) = head c
     \<and> keymap (snd (assign clock es c)) \<noteq> keymap c"
proof -
  let ?r = "assign_loop clock 0 es None (Some (limit c)) (c\<lparr>keymap := []\<rparr>)"
  have a: "assign clock es c = (Inl Overflow, snd ?r)" and
       k: "fst ` set (keymap (snd ?r)) = fst ` set (take (Suc (nat (limit c))) es)" and
       d: "distinct (map fst (keymap (snd ?r)))" and
       s: "size' (snd ?r) = size' c" "head (snd ?r) = head c"
    using assms(1) assign_loop_overflow[of "limit c" es clock 0 None "c\<lparr>keymap := []\<rparr>"] assms(2)
    by (auto simp: assign_def split: prod.splits sum.splits)
  have "length (keymap (snd ?r)) = card (fst ` set (keymap (snd ?r)))"
    using distinct_card[OF d] by simp
  also have "\<dots> = card (set (map fst (take (Suc (nat (limit c))) es)))" by (simp add: k)
  also have "\<dots> = Suc (nat (limit c))"
    using distinct_card[OF assms(3)[simplified]] assms(1,2) by (simp add: min_def) linarith
  finally have len: "int (length (keymap (snd ?r))) = limit c + 1" using assms(1) by simp
  with assms(4) have "keymap (snd ?r) \<noteq> keymap c" by auto
  with a len s k show ?thesis by simp
qed

theorem assign_overflow_leaves_partial_state_witness:
  "fst (assign (\<lambda>i. 0) [(''a'', 1::int), (''b'', 2)] (snd (set' 0 ''x'' 7 (fresh 0 1))))
     = Inl Overflow
   \<and> fst ` set (keymap (snd (assign (\<lambda>i. 0) [(''a'', 1::int), (''b'', 2)]
                                 (snd (set' 0 ''x'' 7 (fresh 0 1)))))) = {''a'', ''b''}
   \<and> length (keymap (snd (assign (\<lambda>i. 0) [(''a'', 1::int), (''b'', 2)]
                             (snd (set' 0 ''x'' 7 (fresh 0 1)))))) = 2
   \<and> size' (snd (assign (\<lambda>i. 0) [(''a'', 1::int), (''b'', 2)]
                    (snd (set' 0 ''x'' 7 (fresh 0 1))))) = 1
   \<and> head (snd (assign (\<lambda>i. 0) [(''a'', 1::int), (''b'', 2)]
                   (snd (set' 0 ''x'' 7 (fresh 0 1))))) = Some 0
   \<and> keymap (snd (assign (\<lambda>i. 0) [(''a'', 1::int), (''b'', 2)]
                   (snd (set' 0 ''x'' 7 (fresh 0 1))))) \<noteq> [(''x'', 0)]"
proof -
  define c where "c = snd (set' 0 ''x'' (7::int) (fresh 0 1))"
  have c: "limit c = 1" "keymap c = [(''x'', 0)]" "size' c = 1" "head c = Some 0"
    by (simp_all add: c_def set'_def insertEntry_def fresh_def Let_def new_Entry_def)
  have "0 < limit c" "limit c < int (length [(''a'', 1::int), (''b'', 2)])"
     "distinct (map fst (take (nat (limit c) + 1) [(''a'', 1::int), (''b'', 2)]))"
     "int (length (keymap c)) \<le> limit c" by (simp_all add: c)
  from assign_overflow_leaves_partial_state[OF this, of "\<lambda>i. 0"] show ?thesis
    by (simp add: c c_def[symmetric])
qed

section \<open>Timestamps\<close>

lemma keeps_stamps_refl [simp]: "keeps_stamps c c" by (simp add: keeps_stamps_def)
lemma keeps_stamps_trans: "keeps_stamps c c1 \<Longrightarrow> keeps_stamps c1 c2 \<Longrightarrow> keeps_stamps c c2"
  by (auto simp: keeps_stamps_def)

lemma ks_purge: "keeps_stamps c (purgeRemovedEntry e c)"
  by (simp add: keeps_stamps_def purgeRemovedEntry_def Let_def)

lemma ks_removeLRUItem: "keeps_stamps c (snd (removeLRUItem c))"
  by (simp add: keeps_stamps_def removeLRUItem_def purgeRemovedEntry_def Let_def split: option.splits)

lemma ks_delete: "keeps_stamps c (snd (delete' k c))"
  by (simp add: keeps_stamps_def delete'_def Let_def split: option.splits)

lemma ks_has: "keeps_stamps c (snd (has now k c))"
  using ks_delete[of c k] by (simp add: has_def split: option.splits)

lemma ks_mark: "keeps_stamps c (snd (markEntryAsUsed now e r c))"
  by (auto simp add: keeps_stamps_def markEntryAsUsed_def Let_def split: option.splits if_splits)

lemma ks_get: "keeps_stamps c (snd (get now k c))"
proof -
  obtain b c1 where h: "has now k c = (b, c1)" by (cases "has now k c")
  with ks_has[of c now k] have 1: "keeps_stamps c c1" by simp
  show ?thesis using h 1 keeps_stamps_trans[OF 1 ks_mark]
    by (cases b) (auto simp add: get_def split: option.splits prod.splits sum.splits, (metis snd_conv)+)
qed

lemma ks_insertEntry: "keeps_stamps c (snd (insertEntry now k v c))"
  by (auto simp add: keeps_stamps_def insertEntry_def Let_def nth_append split: option.splits if_splits)

lemma ks_set': "keeps_stamps c (snd (set' now k v c))"
proof (cases "map_of (keymap c) k")
  case (Some e)
  have "keeps_stamps c (set_value e v c)" by (simp add: keeps_stamps_def)
  from keeps_stamps_trans[OF this ks_mark] Some show ?thesis by (simp add: set'_def)
next
  case None
  obtain r c1 where i: "insertEntry now k v c = (r, c1)" by (cases "insertEntry now k v c")
  with ks_insertEntry[of c now k v] have 1: "keeps_stamps c c1" by simp
  from keeps_stamps_trans[OF 1 ks_removeLRUItem] 1 None i show ?thesis
    by (auto simp add: set'_def split: sum.splits prod.splits)
qed

lemma ks_assign_step: "keeps_stamps c (assign_step now x l c)"
  by (cases l) (auto simp add: assign_step_def Let_def keeps_stamps_def nth_append)

lemma ks_assign_loop: "keeps_stamps c (snd (assign_loop clock i xs l b c))"
proof (induction xs arbitrary: i l b c)
  case Nil
  then show ?case by simp
next
  case (Cons x xs)
  have "keeps_stamps c (snd (assign_loop clock (Suc i) xs (Some (length (heap c)))
           (map_option (\<lambda>n. n - 1) b) (assign_step (clock i) x l c)))"
    by (rule keeps_stamps_trans[OF ks_assign_step Cons.IH])
  then show ?case by (simp add: ks_assign_step)
qed

lemma ks_assign: "keeps_stamps c (snd (assign clock es c))"
proof -
  have 1: "keeps_stamps c (c\<lparr>keymap := []\<rparr>)" by (simp add: keeps_stamps_def)
  from keeps_stamps_trans[OF 1 ks_assign_loop]
  show ?thesis
    by (auto simp add: assign_def keeps_stamps_def split: prod.splits sum.splits) (metis snd_conv)+
qed

lemma ks_perform: "keeps_stamps c (snd (perform x c))"
  by (cases x) (simp_all add: raised_def ks_set' ks_get ks_has ks_delete ks_removeLRUItem ks_assign,
      simp add: keeps_stamps_def clear_def)

lemma ks_after_calls: "keeps_stamps c (after_calls xs c)"
proof (induction xs arbitrary: c)
  case Nil
  then show ?case by simp
next
  case (Cons x xs)
  from keeps_stamps_trans[OF ks_perform Cons.IH] show ?case by simp
qed

lemma set'_new_stamp:
  "map_of (keymap c) k = None \<Longrightarrow>
   length (heap c) < length (heap (snd (set' now k v c)))
   \<and> CREATED_AT (heap (snd (set' now k v c)) ! length (heap c)) = now"
proof -
  assume n: "map_of (keymap c) k = None"
  obtain r c1 where i: "insertEntry now k v c = (r, c1)" by (cases "insertEntry now k v c")
  have 1: "length (heap c) < length (heap c1) \<and> CREATED_AT (heap c1 ! length (heap c)) = now"
    using i by (auto simp add: insertEntry_def Let_def new_Entry_def split: option.splits if_splits)
  with ks_removeLRUItem[of c1] have 2: "length (heap c) < length (heap (snd (removeLRUItem c1)))
     \<and> CREATED_AT (heap (snd (removeLRUItem c1)) ! length (heap c)) = now"
    by (auto simp: keeps_stamps_def)
  show ?thesis using n i 1 2 by (auto simp add: set'_def split: sum.splits prod.splits)
qed

lemma set'_renewAge_on_cache:
  "map_of (keymap c) k = Some e \<Longrightarrow> head c \<noteq> Some e \<Longrightarrow> fst (set' now k v c) = Inr () \<Longrightarrow>
   own_CREATED_AT (snd (set' now k v c)) = Some now"
  by (auto simp add: set'_def markEntryAsUsed_def Let_def split: option.splits if_splits)

lemma assign_step_new:
  "length (heap (assign_step now x l c)) = Suc (length (heap c))"
  "CREATED_AT (heap (assign_step now x l c) ! length (heap c)) = now"
  by (cases l; simp add: assign_step_def Let_def new_Entry_def)+

lemma assign_loop_stamps:
  "j < length xs \<Longrightarrow> fst (assign_loop clock i xs l b c) = Inr r \<Longrightarrow>
   CREATED_AT (heap (snd (assign_loop clock i xs l b c)) ! (length (heap c) + j)) = clock (i + j)"
proof (induction xs arbitrary: i l b c j)
  case Nil
  then show ?case by simp
next
  case (Cons x xs)
  let ?c3 = "assign_step (clock i) x l c"
  let ?rest = "assign_loop clock (Suc i) xs (Some (length (heap c))) (map_option (\<lambda>n. n - 1) b) ?c3"
  from Cons.prems(2) have eq: "assign_loop clock i (x # xs) l b c = ?rest"
    and ok: "fst ?rest = Inr r"
    by (auto split: if_splits)
  show ?case
  proof (cases j)
    case 0
    from ks_assign_loop[of ?c3 clock "Suc i" xs "Some (length (heap c))" "map_option (\<lambda>n. n - 1) b"]
    show ?thesis unfolding eq 0 by (auto simp: keeps_stamps_def assign_step_new)
  next
    case (Suc j')
    with Cons.prems(1) have "j' < length xs" by simp
    from Cons.IH[OF this ok] show ?thesis unfolding eq Suc by (simp add: assign_step_new)
  qed
qed

lemma assign_stamps:
  assumes "j < length es" "fst (assign clock es c) = Inr ()"
  shows "CREATED_AT (heap (snd (assign clock es c)) ! (length (heap c) + j)) = clock j"
proof -
  define b where "b = (if limit c = 0 then None else Some (limit c))"
  let ?r = "assign_loop clock 0 es None b (c\<lparr>keymap := []\<rparr>)"
  obtain r c1 where r: "?r = (r, c1)" by (cases ?r)
  with assms(2) obtain l where l: "r = Inr l" by (cases r) (auto simp: assign_def b_def)
  from assign_loop_stamps[OF assms(1), of clock 0 None b "c\<lparr>keymap := []\<rparr>" l] r l
  show ?thesis by (simp add: assign_def b_def[symmetric])
qed

text \<open>
  C9. The timestamp of an entry is the reading of the clock when the entry is built:
  by \<open>set\<close> on a key that is not in the key map, or by \<open>assign\<close> (the \<open>j\<close>-th pair of a
  successful \<open>assign\<close>). No history of calls, whatever they return or throw, changes the
  timestamp of an entry that exists. In particular \<open>set\<close> on an existing key leaves the
  entry's timestamp alone; when the entry is not the head and the call returns, the
  new reading of the clock is stored in \<open>this[CREATED_AT]\<close> of the cache object.
\<close>

theorem created_at_fixed_at_construction:
  "(a < length (heap c) \<longrightarrow>
      a < length (heap (after_calls calls c))
      \<and> CREATED_AT (heap (after_calls calls c) ! a) = CREATED_AT (heap c ! a))
   \<and> (map_of (keymap c) k = None \<longrightarrow>
      length (heap c) < length (heap (snd (set' now k v c)))
      \<and> CREATED_AT (heap (snd (set' now k v c)) ! length (heap c)) = now)
   \<and> (j < length es \<and> fst (assign clock es c) = Inr () \<longrightarrow>
      CREATED_AT (heap (snd (assign clock es c)) ! (length (heap c) + j)) = clock j)
   \<and> (map_of (keymap c) k = Some e \<and> e < length (heap c) \<longrightarrow>
      CREATED_AT (heap (snd (set' now k v c)) ! e) = CREATED_AT (heap c ! e))
   \<and> (map_of (keymap c) k = Some e \<and> head c \<noteq> Some e \<and> fst (set' now k v c) = Inr () \<longrightarrow>
      own_CREATED_AT (snd (set' now k v c)) = Some now)"
  using ks_after_calls[of c calls] ks_set'[of c now k v] set'_new_stamp[of c k now v]
    assign_stamps[of j es clock c] set'_renewAge_on_cache[of c k e now v]
  by (simp add: keeps_stamps_def)

theorem created_at_fixed_at_construction_witness:
  "CREATED_AT (heap (after_calls [Set 100 ''a'' 2, Get 200 ''a'', Set 300 ''b'' 3, Set 400 ''a'' 4]
                      (snd (set' 5 ''a'' (1::int) (fresh 10 3)))) ! 0) = 5
   \<and> CREATED_AT (heap (snd (set' 7 ''b'' 2 (snd (set' 5 ''a'' (1::int) (fresh 10 3))))) ! 1) = 7
   \<and> CREATED_AT (heap (snd (assign (\<lambda>i. 50 + int i) [(''x'', 1), (''y'', 2)]
                              (snd (set' 5 ''a'' (1::int) (fresh 10 3))))) ! 2) = 51
   \<and> CREATED_AT (heap (snd (set' 900 ''a'' 9
              (snd (set' 7 ''b'' 2 (snd (set' 5 ''a'' (1::int) (fresh 10 3))))))) ! 0) = 5
   \<and> own_CREATED_AT (snd (set' 900 ''a'' 9
              (snd (set' 7 ''b'' 2 (snd (set' 5 ''a'' (1::int) (fresh 10 3))))))) = Some 900"
proof -
  define c1 where "c1 = snd (set' 5 ''a'' (1::int) (fresh 10 3))"
  define c2 where "c2 = snd (set' 7 ''b'' (2::int) c1)"
  have c1: "heap c1 = [\<lparr>key = ''a'', value' = 1, CREATED_AT = 5, PREVIOUS = None, NEXT = None\<rparr>]"
    "keymap c1 = [(''a'', 0)]" "head c1 = Some 0" "tail c1 = Some 0" "size' c1 = 1" "limit c1 = 3"
    by (simp_all add: c1_def set'_def insertEntry_def fresh_def new_Entry_def Let_def)
  have c2: "length (heap c2) = 2" "CREATED_AT (heap c2 ! 0) = 5" "keymap c2 = [(''a'', 0), (''b'', 1)]"
    "head c2 = Some 1"
    by (simp_all add: c2_def set'_def insertEntry_def c1 new_Entry_def Let_def
          set_PREVIOUS_def set_NEXT_def)
  have ok: "fst (set' 900 ''a'' 9 c2) = Inr ()"
    by (simp add: c2_def set'_def insertEntry_def c1 new_Entry_def Let_def
          set_PREVIOUS_def set_NEXT_def set_value_def markEntryAsUsed_def)
  have as: "fst (assign (\<lambda>i. 50 + int i) [(''x'', 1), (''y'', 2)] c1) = Inr ()"
    by (simp add: assign_def c1 assign_step_def Let_def)
  from created_at_fixed_at_construction[of 0 c1
         "[Set 100 ''a'' 2, Get 200 ''a'', Set 300 ''b'' 3, Set 400 ''a'' 4]" "''b''" 7 2 1
         "[(''x'', 1), (''y'', 2)]" "\<lambda>i. 50 + int i" 0]
       created_at_fixed_at_construction[of 0 c2 "[]" "''a''" 900 9 0 "[]" "\<lambda>i. 0" 0]
       ok as
  show ?thesis
    by (simp add: c1 c2 c1_def[symmetric] c2_def[symmetric] numeral_2_eq_2)
qed

section \<open>Size and limit\<close>

lemma purge_size [simp]: "size' (purgeRemovedEntry e c) = size' c" "limit (purgeRemovedEntry e c) = limit c"
  by (simp_all add: purgeRemovedEntry_def Let_def)

lemma removeLRUItem_limit [simp]: "limit (snd (removeLRUItem c)) = limit c"
  by (simp add: removeLRUItem_def Let_def split: option.splits)

lemma removeLRUItem_size:
  "fst (removeLRUItem c) = Inr r \<Longrightarrow>
   size' (snd (removeLRUItem c)) = (if size' c = 0 then 0 else size' c - 1)
   \<and> (r = None \<longleftrightarrow> size' c = 0)"
  by (auto simp add: removeLRUItem_def Let_def split: option.splits if_splits)

lemma removeLRUItem_size_le:
  "fst (removeLRUItem c) \<noteq> Inl TypeError \<Longrightarrow> size' (snd (removeLRUItem c)) \<le> size' c"
  by (auto simp add: removeLRUItem_def Let_def split: option.splits if_splits)

lemma insertEntry_limit [simp]: "limit (snd (insertEntry now k v c)) = limit c"
  by (simp add: insertEntry_def Let_def split: option.splits)

lemma insertEntry_size:
  "size' (snd (insertEntry now k v c)) = (case fst (insertEntry now k v c) of Inl e \<Rightarrow> size' c | Inr u \<Rightarrow> size' c + 1)"
  by (simp add: insertEntry_def Let_def split: option.splits)

lemma insertEntry_error: "fst (insertEntry now k v c) = Inl e \<Longrightarrow> e = TypeError"
  by (simp add: insertEntry_def Let_def split: option.splits if_splits)

lemma removeLRUItem_error: "fst (removeLRUItem c) = Inl e \<Longrightarrow> e = TypeError"
  by (simp add: removeLRUItem_def Let_def split: option.splits if_splits)

lemma markEntryAsUsed_size [simp]:
  "size' (snd (markEntryAsUsed now e r c)) = size' c" "limit (snd (markEntryAsUsed now e r c)) = limit c"
  by (auto simp add: markEntryAsUsed_def Let_def split: option.splits if_splits)

lemma delete'_limit [simp]: "limit (snd (delete' k c)) = limit c"
  by (simp add: delete'_def Let_def split: option.splits)

lemma delete'_size: "size' (snd (delete' k c)) = (if map_of (keymap c) k = None then size' c else size' c - 1)"
  by (simp add: delete'_def Let_def split: option.splits)

lemma has_limit [simp]: "limit (snd (has now k c)) = limit c"
  by (simp add: has_def split: option.splits)

lemma has_size_le: "size' (snd (has now k c)) \<le> size' c"
  by (simp add: has_def delete'_size split: option.splits)

lemma get_limit [simp]: "limit (snd (get now k c)) = limit c"
proof -
  obtain b c1 where h: "has now k c = (b, c1)" by (cases "has now k c")
  with has_limit[of now k c] have "limit c1 = limit c" by simp
  with h show ?thesis
    by (cases b; cases "map_of (keymap c1) k")
       (auto simp add: get_def split: prod.splits sum.splits, (metis markEntryAsUsed_size(2) snd_conv)+)
qed

lemma get_size_le: "size' (snd (get now k c)) \<le> size' c"
proof -
  obtain b c1 where h: "has now k c = (b, c1)" by (cases "has now k c")
  with has_size_le[of now k c] have "size' c1 \<le> size' c" by simp
  with h show ?thesis
    by (cases b; cases "map_of (keymap c1) k")
       (auto simp add: get_def split: prod.splits sum.splits, (metis markEntryAsUsed_size(1) snd_conv)+)
qed

lemma set'_limit [simp]: "limit (snd (set' now k v c)) = limit c"
proof (cases "map_of (keymap c) k")
  case None
  obtain r c1 where i: "insertEntry now k v c = (r, c1)" by (cases "insertEntry now k v c")
  obtain r2 c2 where rm: "removeLRUItem c1 = (r2, c2)" by (cases "removeLRUItem c1")
  from i insertEntry_limit[of now k v c] have 1: "limit c1 = limit c" by simp
  from rm removeLRUItem_limit[of c1] 1 have 2: "limit c2 = limit c" by simp
  from None i rm 1 2 show ?thesis
    by (cases r; cases r2) (simp_all add: set'_def)
qed (simp add: set'_def)

lemma markEntryAsUsed_error: "fst (markEntryAsUsed now e r c) = Inl x \<Longrightarrow> x = TypeError"
  by (auto simp add: markEntryAsUsed_def Let_def split: option.splits if_splits)

lemma set'_error: "fst (set' now k v c) = Inl x \<Longrightarrow> x = TypeError"
proof (cases "map_of (keymap c) k")
  case None
  assume a: "fst (set' now k v c) = Inl x"
  obtain r c1 where i: "insertEntry now k v c = (r, c1)" by (cases "insertEntry now k v c")
  obtain r2 c2 where rm: "removeLRUItem c1 = (r2, c2)" by (cases "removeLRUItem c1")
  from a None i rm insertEntry_error[of now k v c x] removeLRUItem_error[of c1 x]
  show ?thesis
    by (cases r; cases r2) (auto simp add: set'_def split: if_splits)
next
  case (Some e)
  assume "fst (set' now k v c) = Inl x"
  with Some markEntryAsUsed_error[of now e True "set_value e v c" x] show ?thesis
    by (simp add: set'_def)
qed

text \<open>The effect of a set that returns on the size.\<close>
lemma set'_returns:
  assumes "set' now k v c = (Inr (), c')"
  obtains (existing) e where "map_of (keymap c) k = Some e" "size' c' = size' c"
    | (room) "map_of (keymap c) k = None" "\<not> limit c < size' c + 1"
        "insertEntry now k v c = (Inr (), c')" "size' c' = size' c + 1"
    | (full) r where "map_of (keymap c) k = None" "limit c < size' c + 1"
        "fst (insertEntry now k v c) = Inr ()"
        "removeLRUItem (snd (insertEntry now k v c)) = (Inr r, c')"
        "r = None \<longleftrightarrow> size' c + 1 = 0"
        "size' c' = (if size' c + 1 = 0 then 0 else size' c)"
proof (cases "map_of (keymap c) k")
  case (Some e)
  with assms have "c' = snd (markEntryAsUsed now e True (set_value e v c))" by (simp add: set'_def)
  with Some existing show ?thesis by simp
next
  case None
  obtain r c1 where i: "insertEntry now k v c = (r, c1)" by (cases "insertEntry now k v c")
  with None assms have r: "r = Inr ()" by (cases r) (auto simp add: set'_def)
  from i r insertEntry_size[of now k v c] insertEntry_limit[of now k v c]
  have s1: "size' c1 = size' c + 1" "limit c1 = limit c" by simp_all
  show ?thesis
  proof (cases "limit c < size' c + 1")
    case False
    with None i r s1 assms have "insertEntry now k v c = (Inr (), c')" "size' c' = size' c + 1"
      by (simp_all add: set'_def)
    with None False room show ?thesis by simp
  next
    case True
    obtain r2 c2 where rm: "removeLRUItem c1 = (r2, c2)" by (cases "removeLRUItem c1")
    with None i r s1 True assms obtain x where x: "r2 = Inr x" "c2 = c'"
      by (cases r2) (auto simp add: set'_def)
    from removeLRUItem_size[of c1 x] rm x s1
    have "size' c' = (if size' c + 1 = 0 then 0 else size' c)" "(x = None \<longleftrightarrow> size' c + 1 = 0)" by auto
    with None True i r rm x full[of x] show ?thesis by simp
  qed
qed

lemma length_update_le: "length (AList.update k v al) \<le> Suc (length al)"
  by (induction al) auto

lemma assign_step_fields [simp]:
  "size' (assign_step now x l c) = size' c" "limit (assign_step now x l c) = limit c"
  "head (assign_step now x l c) = head c" "lifetime (assign_step now x l c) = lifetime c"
  "keymap (assign_step now x l c) = AList.update (fst x) (length (heap c)) (keymap c)"
  "length (heap (assign_step now x l c)) = Suc (length (heap c))"
  by (cases l; simp add: assign_step_def Let_def)+

lemma assign_loop_fields:
  "limit (snd (assign_loop clock i xs l b c)) = limit c
   \<and> size' (snd (assign_loop clock i xs l b c)) = size' c
   \<and> length (keymap (snd (assign_loop clock i xs l b c))) \<le> length (keymap c) + length xs"
proof (induction xs arbitrary: i l b c)
  case (Cons x xs)
  from Cons[of "Suc i" "Some (length (heap c))" "map_option (\<lambda>n. n - 1) b" "assign_step (clock i) x l c"]
    length_update_le[of "fst x" "length (heap c)" "keymap c"]
  show ?case by auto
qed simp

lemma assign_loop_within:
  "fst (assign_loop clock i xs l (Some n) c) = Inr r \<Longrightarrow> 0 \<le> n \<Longrightarrow> int (length xs) \<le> n"
proof (induction xs arbitrary: i l n c)
  case (Cons x xs)
  from Cons.prems have n: "n \<noteq> 0" and ok: "fst (assign_loop clock (Suc i) xs (Some (length (heap c))) (Some (n - 1)) (assign_step (clock i) x l c)) = Inr r"
    by (auto split: if_splits)
  with Cons.prems(2) have "0 \<le> n - 1" by simp
  from Cons.IH[OF ok this] show ?case by simp
qed simp

lemma assign_limit [simp]: "limit (snd (assign clock es c)) = limit c"
proof -
  define b where "b = (if limit c = 0 then None else Some (limit c))"
  obtain r c1 where r: "assign_loop clock 0 es None b (c\<lparr>keymap := []\<rparr>) = (r, c1)"
    by (cases "assign_loop clock 0 es None b (c\<lparr>keymap := []\<rparr>)")
  with assign_loop_fields[of clock 0 es None b "c\<lparr>keymap := []\<rparr>"] show ?thesis
    by (cases r) (simp_all add: assign_def b_def[symmetric])
qed

lemma assign_error: "fst (assign clock es c) = Inl e \<Longrightarrow> e = Overflow"
proof -
  have "fst (assign_loop clock i xs l b c') = Inl e \<Longrightarrow> e = Overflow" for i xs l b and c' :: "('a, 'b) LRUCache"
    by (induction xs arbitrary: i l b c') (auto split: if_splits)
  then show "fst (assign clock es c) = Inl e \<Longrightarrow> e = Overflow"
    by (auto simp add: assign_def split: prod.splits sum.splits) (metis fst_conv)
qed

lemma assign_size:
  "size' (snd (assign clock es c)) =
     (case fst (assign clock es c) of Inl e \<Rightarrow> size' c | Inr u \<Rightarrow> int (length (keymap (snd (assign clock es c)))))"
proof -
  define b where "b = (if limit c = 0 then None else Some (limit c))"
  obtain r c1 where r: "assign_loop clock 0 es None b (c\<lparr>keymap := []\<rparr>) = (r, c1)"
    by (cases "assign_loop clock 0 es None b (c\<lparr>keymap := []\<rparr>)")
  with assign_loop_fields[of clock 0 es None b "c\<lparr>keymap := []\<rparr>"] show ?thesis
    by (cases r) (simp_all add: assign_def b_def[symmetric])
qed

lemma assign_within:
  assumes "0 < limit c" "fst (assign clock es c) = Inr ()"
  shows "size' (snd (assign clock es c)) \<le> limit c"
proof -
  obtain r c1 where r: "assign_loop clock 0 es None (Some (limit c)) (c\<lparr>keymap := []\<rparr>) = (r, c1)"
    by (cases "assign_loop clock 0 es None (Some (limit c)) (c\<lparr>keymap := []\<rparr>)")
  with assms obtain l where l: "r = Inr l" by (cases r) (auto simp: assign_def)
  from assign_loop_within[of clock 0 es None "limit c" "c\<lparr>keymap := []\<rparr>" l] r l assms(1)
  have "int (length es) \<le> limit c" by simp
  moreover from assign_loop_fields[of clock 0 es None "Some (limit c)" "c\<lparr>keymap := []\<rparr>"] r
  have "length (keymap c1) \<le> length es" by simp
  ultimately show ?thesis using r l assms(1) by (simp add: assign_def)
qed

lemma perform_within:
  assumes "0 < limit c" "size' c \<le> limit c" "fst (perform x c) \<noteq> Some TypeError"
  shows "limit (snd (perform x c)) = limit c \<and> size' (snd (perform x c)) \<le> limit c"
proof (cases x)
  case (Set now k v)
  obtain r c' where s: "set' now k v c = (r, c')" by (cases "set' now k v c")
  show ?thesis
  proof (cases r)
    case (Inr u)
    with s have s': "set' now k v c = (Inr (), c')" by simp
    from s' set'_limit[of now k v c] have l: "limit c' = limit c" by simp
    from s' have "size' c' \<le> limit c"
      using assms(1,2) by (cases rule: set'_returns) (auto split: if_splits)
    with l s Set show ?thesis by (simp add: raised_def)
  next
    case (Inl e)
    with s set'_error[of now k v c e] assms(3) Set show ?thesis by (simp add: raised_def)
  qed
next
  case (Get now k)
  with get_size_le[of now k c] assms(2) show ?thesis by (simp add: raised_def)
next
  case (Has now k)
  with has_size_le[of now k c] assms(2) show ?thesis by simp
next
  case (Find k)
  with assms show ?thesis by simp
next
  case (Delete k)
  with delete'_size[of k c] assms(2) show ?thesis by simp
next
  case RemoveLRUItem
  with removeLRUItem_size_le[of c] assms(2,3) show ?thesis
    by (auto simp add: raised_def split: sum.splits)
next
  case Clear
  with assms(1) show ?thesis by (simp add: clear_def)
next
  case (Assign clock es)
  show ?thesis
  proof (cases "fst (assign clock es c)")
    case (Inl e)
    with assign_size[of clock es c] assms(2) Assign show ?thesis by (simp add: raised_def)
  next
    case (Inr u)
    with assign_within[OF assms(1), of clock es] Assign show ?thesis by (simp add: raised_def)
  qed
qed

lemma after_calls_within:
  "0 < limit c \<Longrightarrow> size' c \<le> limit c \<Longrightarrow> no_TypeError xs c \<Longrightarrow>
   limit (after_calls xs c) = limit c \<and> size' (after_calls xs c) \<le> limit c"
proof (induction xs arbitrary: c)
  case (Cons x xs)
  from Cons.prems have nt: "fst (perform x c) \<noteq> Some TypeError" "no_TypeError xs (snd (perform x c))"
    by simp_all
  from perform_within[OF Cons.prems(1,2) nt(1)]
  have 1: "limit (snd (perform x c)) = limit c" "size' (snd (perform x c)) \<le> limit c" by simp_all
  with Cons.prems(1) have 2: "0 < limit (snd (perform x c))" "size' (snd (perform x c)) \<le> limit (snd (perform x c))"
    by simp_all
  from Cons.IH[OF 2 nt(2)] 1 show ?case by simp
qed simp

lemma new_LRUCache_within:
  assumes "new_LRUCache clock L arg2 arg3 = Inr c0" "0 < limit c0"
  shows "size' c0 \<le> limit c0"
proof -
  define limit0 where "limit0 = (case arg2 of Number n \<Rightarrow> n | NotNumber es \<Rightarrow> 0)"
  define entries0 where "entries0 = (case arg2 of Number n \<Rightarrow> arg3 | NotNumber es \<Rightarrow> es)"
  have new: "new_LRUCache clock L arg2 arg3 =
     (case entries0 of None \<Rightarrow> Inr (fresh L limit0)
      | Some es \<Rightarrow> (case assign clock es (fresh L limit0) of
            (Inl e, c1) \<Rightarrow> Inl e
          | (Inr u, c1) \<Rightarrow> Inr (if limit0 < 1 then c1\<lparr>limit := size' c1\<rparr> else c1)))"
    by (simp only: new_LRUCache_def limit0_def entries0_def Let_def)
  show ?thesis
  proof (cases entries0)
    case None
    with new assms show ?thesis by (simp add: fresh_def)
  next
    case (Some es)
    obtain r c1 where a: "assign clock es (fresh L limit0) = (r, c1)"
      by (cases "assign clock es (fresh L limit0)")
    with new Some assms(1) have r: "r = Inr ()" and c0: "c0 = (if limit0 < 1 then c1\<lparr>limit := size' c1\<rparr> else c1)"
      by (cases r; simp)+
    show ?thesis
    proof (cases "limit0 < 1")
      case True
      with c0 show ?thesis by simp
    next
      case False
      then have "0 < limit (fresh L limit0)" by (simp add: fresh_def)
      from assign_within[OF this, of clock es] a r have "size' c1 \<le> limit0" by (simp add: fresh_def)
      moreover have "limit (snd (assign clock es (fresh L limit0))) = limit0"
        by (simp add: fresh_def)
      with a have "limit c1 = limit0" by simp
      ultimately show ?thesis using c0 False by simp
    qed
  qed
qed

text \<open>
  C3, as stated, fails in a state that is reached through caught errors. With limit 1:
  a set, then an \<open>assign\<close> of two pairs (Overflow, which leaves \<open>tail\<close> at the new
  chain and \<open>head\<close> at the old entry), then a set (which evicts the first new entry), then
  a set of \<open>d\<close> whose eviction ends in a \<open>TypeError\<close> before the size is decremented.
  The next set of \<open>d\<close> returns normally, and the size is 2 with limit 1.
\<close>

theorem set_exceeds_limit_after_crash:
  "new_LRUCache (\<lambda>i. 0) 0 (Number 1) None = Inr (fresh 0 1 :: (string, int) LRUCache)
   \<and> map (\<lambda>n. fst (perform
            ([Set 0 ''x'' (1::int), Assign (\<lambda>i. 0) [(''a'', 1), (''b'', 2)], Set 0 ''c'' 3,
              Set 0 ''d'' 4] ! n)
            (after_calls (take n [Set 0 ''x'' (1::int), Assign (\<lambda>i. 0) [(''a'', 1), (''b'', 2)],
               Set 0 ''c'' 3, Set 0 ''d'' 4]) (fresh 0 1)))) [0, 1, 2, 3]
       = [None, Some Overflow, None, Some TypeError]
   \<and> fst (set' 0 ''d'' 9 (after_calls
        [Set 0 ''x'' (1::int), Assign (\<lambda>i. 0) [(''a'', 1), (''b'', 2)], Set 0 ''c'' 3, Set 0 ''d'' 4]
        (fresh 0 1))) = Inr ()
   \<and> size' (snd (set' 0 ''d'' 9 (after_calls
        [Set 0 ''x'' (1::int), Assign (\<lambda>i. 0) [(''a'', 1), (''b'', 2)], Set 0 ''c'' 3, Set 0 ''d'' 4]
        (fresh 0 1)))) = 2
   \<and> limit (snd (set' 0 ''d'' 9 (after_calls
        [Set 0 ''x'' (1::int), Assign (\<lambda>i. 0) [(''a'', 1), (''b'', 2)], Set 0 ''c'' 3, Set 0 ''d'' 4]
        (fresh 0 1)))) = 1"
  by (simp add: new_LRUCache_plain) code_simp

text \<open>
  C3, amended. Take a cache with a positive limit as the constructor returns it, and any
  history of calls on it none of which ended in a \<open>TypeError\<close> (calls that raised
  NotFound or Overflow are allowed). A set that returns in the state reached leaves the
  limit as constructed and the size at most the limit. A set of an existing key keeps the
  size; a set of a new key below the limit inserts and evicts nothing; a set of a new
  key at the limit inserts and then is exactly one call of \<open>removeLRUItem\<close>, which
  returns one entry and takes the size back to the limit.
\<close>

theorem set_keeps_size_within_limit:
  assumes "new_LRUCache clock L arg2 arg3 = Inr c0" and "0 < limit c0"
    and "no_TypeError calls c0" and "c = after_calls calls c0"
    and "set' now k v c = (Inr (), c')"
  shows "limit c' = limit c0 \<and> size' c' \<le> limit c'
     \<and> (map_of (keymap c) k \<noteq> None \<longrightarrow> size' c' = size' c)
     \<and> (map_of (keymap c) k = None \<and> size' c < limit c \<longrightarrow>
          insertEntry now k v c = (Inr (), c') \<and> size' c' = size' c + 1)
     \<and> (map_of (keymap c) k = None \<and> size' c = limit c \<longrightarrow>
          (\<exists>r. removeLRUItem (snd (insertEntry now k v c)) = (Inr (Some r), c'))
          \<and> size' c' = size' (snd (insertEntry now k v c)) - 1 \<and> size' c' = limit c)"
proof -
  from after_calls_within[OF assms(2) new_LRUCache_within[OF assms(1,2)] assms(3)] assms(4)
  have c: "limit c = limit c0" "size' c \<le> limit c" by simp_all
  from set'_limit[of now k v c] assms(5) have l: "limit c' = limit c" by simp
  from assms(5) show ?thesis
  proof (cases rule: set'_returns)
    case (existing e)
    with c l show ?thesis by simp
  next
    case room
    with c l show ?thesis by simp
  next
    case (full r)
    from full(2) c(2) have eq: "size' c = limit c" by simp
    with assms(2) c(1) have nz: "size' c + 1 \<noteq> 0" by simp
    with full(5) obtain x where x: "r = Some x" by (cases r) auto
    from full(3) insertEntry_size[of now k v c] have "size' (snd (insertEntry now k v c)) = size' c + 1"
      by simp
    with full x nz eq c l show ?thesis by simp
  qed
qed

theorem set_keeps_size_within_limit_witness:
  "limit (snd (set' 4 ''c'' 3 (after_calls [Set 1 ''a'' (1::int), Set 2 ''b'' 2, Get 3 ''a''] (fresh 0 2)))) = 2
   \<and> size' (snd (set' 4 ''c'' 3 (after_calls [Set 1 ''a'' (1::int), Set 2 ''b'' 2, Get 3 ''a''] (fresh 0 2)))) = 2
   \<and> (\<exists>r. removeLRUItem (snd (insertEntry 4 ''c'' 3
              (after_calls [Set 1 ''a'' (1::int), Set 2 ''b'' 2, Get 3 ''a''] (fresh 0 2))))
          = (Inr (Some r),
             snd (set' 4 ''c'' 3 (after_calls [Set 1 ''a'' (1::int), Set 2 ''b'' 2, Get 3 ''a''] (fresh 0 2)))))"
proof -
  define calls where "calls = [Set 1 ''a'' (1::int), Set 2 ''b'' 2, Get 3 ''a'']"
  define c where "c = after_calls calls (fresh 0 2)"
  have h1: "new_LRUCache (\<lambda>i. 0) 0 (Number 2) None = Inr (fresh 0 2 :: (string, int) LRUCache)"
    by (rule new_LRUCache_plain)
  have h2: "0 < limit (fresh 0 2 :: (string, int) LRUCache)" by (simp add: fresh_def)
  have h3: "no_TypeError calls (fresh 0 2)" unfolding calls_def by code_simp
  have "fst (set' 4 ''c'' 3 c) = Inr ()" unfolding c_def calls_def by code_simp
  then have h5: "set' 4 ''c'' 3 c = (Inr (), snd (set' 4 ''c'' 3 c))"
    by (cases "set' 4 ''c'' 3 c") simp
  have k: "map_of (keymap c) ''c'' = None" "size' c = 2" "limit c = 2"
    "limit (fresh 0 2 :: (string, int) LRUCache) = 2"
    unfolding c_def calls_def by code_simp+
  from set_keeps_size_within_limit[OF h1 h2 h3 c_def h5] k
  have "limit (snd (set' 4 ''c'' 3 c)) = 2 \<and> size' (snd (set' 4 ''c'' 3 c)) = 2
     \<and> (\<exists>r. removeLRUItem (snd (insertEntry 4 ''c'' 3 c)) = (Inr (Some r), snd (set' 4 ''c'' 3 c)))"
    by simp
  then show ?thesis unfolding c_def calls_def .
qed

section \<open>The entry of a key\<close>

text \<open>
  No operation changes the key of an entry. The entry that the key map holds for a key
  after \<open>set\<close> of a new key, after \<open>assign\<close> and after the constructor is the entry
  built for it by that call, stamped with the reading of the clock at that moment.
\<close>

lemma keeps_keys_refl [simp]: "keeps_keys c c" by (simp add: keeps_keys_def)
lemma keeps_keys_trans: "keeps_keys c c1 \<Longrightarrow> keeps_keys c1 c2 \<Longrightarrow> keeps_keys c c2"
  by (auto simp: keeps_keys_def)

lemma kk_purge: "keeps_keys c (purgeRemovedEntry e c)"
  by (simp add: keeps_keys_def purgeRemovedEntry_def Let_def)

lemma kk_removeLRUItem: "keeps_keys c (snd (removeLRUItem c))"
  by (simp add: keeps_keys_def removeLRUItem_def purgeRemovedEntry_def Let_def split: option.splits)

lemma kk_delete: "keeps_keys c (snd (delete' k c))"
  by (simp add: keeps_keys_def delete'_def Let_def split: option.splits)

lemma kk_has: "keeps_keys c (snd (has now k c))"
  using kk_delete[of c k] by (simp add: has_def split: option.splits)

lemma kk_mark: "keeps_keys c (snd (markEntryAsUsed now e r c))"
  by (auto simp add: keeps_keys_def markEntryAsUsed_def Let_def split: option.splits if_splits)

lemma kk_get: "keeps_keys c (snd (get now k c))"
proof -
  obtain b c1 where h: "has now k c = (b, c1)" by (cases "has now k c")
  with kk_has[of c now k] have 1: "keeps_keys c c1" by simp
  show ?thesis using h 1 keeps_keys_trans[OF 1 kk_mark]
    by (cases b) (auto simp add: get_def split: option.splits prod.splits sum.splits, (metis snd_conv)+)
qed

lemma kk_insertEntry: "keeps_keys c (snd (insertEntry now k v c))"
  by (auto simp add: keeps_keys_def insertEntry_def Let_def nth_append split: option.splits if_splits)

lemma kk_set': "keeps_keys c (snd (set' now k v c))"
proof (cases "map_of (keymap c) k")
  case (Some e)
  have "keeps_keys c (set_value e v c)" by (simp add: keeps_keys_def)
  from keeps_keys_trans[OF this kk_mark] Some show ?thesis by (simp add: set'_def)
next
  case None
  obtain r c1 where i: "insertEntry now k v c = (r, c1)" by (cases "insertEntry now k v c")
  with kk_insertEntry[of c now k v] have 1: "keeps_keys c c1" by simp
  from keeps_keys_trans[OF 1 kk_removeLRUItem] 1 None i show ?thesis
    by (auto simp add: set'_def split: sum.splits prod.splits)
qed

lemma kk_assign_step: "keeps_keys c (assign_step now x l c)"
  by (cases l) (auto simp add: assign_step_def Let_def keeps_keys_def nth_append)

lemma kk_assign_loop: "keeps_keys c (snd (assign_loop clock i xs l b c))"
proof (induction xs arbitrary: i l b c)
  case Nil
  then show ?case by simp
next
  case (Cons x xs)
  have "keeps_keys c (snd (assign_loop clock (Suc i) xs (Some (length (heap c)))
           (map_option (\<lambda>n. n - 1) b) (assign_step (clock i) x l c)))"
    by (rule keeps_keys_trans[OF kk_assign_step Cons.IH])
  then show ?case by (simp add: kk_assign_step)
qed

lemma kk_assign: "keeps_keys c (snd (assign clock es c))"
proof -
  have 1: "keeps_keys c (c\<lparr>keymap := []\<rparr>)" by (simp add: keeps_keys_def)
  from keeps_keys_trans[OF 1 kk_assign_loop]
  show ?thesis
    by (auto simp add: assign_def keeps_keys_def split: prod.splits sum.splits) (metis snd_conv)+
qed

lemma kk_perform: "keeps_keys c (snd (perform x c))"
  by (cases x) (simp_all add: raised_def kk_set' kk_get kk_has kk_delete kk_removeLRUItem kk_assign,
      simp add: keeps_keys_def clear_def)

lemma kk_after_calls: "keeps_keys c (after_calls xs c)"
proof (induction xs arbitrary: c)
  case Nil
  then show ?case by simp
next
  case (Cons x xs)
  from keeps_keys_trans[OF kk_perform Cons.IH] show ?case by simp
qed

lemma removeLRUItem_lookup:
  "map_of (keymap (snd (removeLRUItem c))) k = Some e \<Longrightarrow> map_of (keymap c) k = Some e"
  by (auto simp add: removeLRUItem_def purgeRemovedEntry_def Let_def delete_conv
      split: option.splits if_splits)

lemma insertEntry_entry:
  "keymap (snd (insertEntry now k v c)) = AList.update k (length (heap c)) (keymap c)"
  "length (heap c) < length (heap (snd (insertEntry now k v c)))"
  "key (heap (snd (insertEntry now k v c)) ! length (heap c)) = k"
  by (auto simp add: insertEntry_def Let_def new_Entry_def split: option.splits if_splits)

lemma set'_new_entry:
  assumes "map_of (keymap c) k = None" "map_of (keymap (snd (set' now k v c))) k = Some e"
  shows "e = length (heap c) \<and> e < length (heap (snd (set' now k v c)))
     \<and> key (heap (snd (set' now k v c)) ! e) = k
     \<and> CREATED_AT (heap (snd (set' now k v c)) ! e) = now"
proof -
  obtain r c1 where i: "insertEntry now k v c = (r, c1)" by (cases "insertEntry now k v c")
  from insertEntry_entry[where now=now and k=k and v=v and c=c] i
  have c1: "keymap c1 = AList.update k (length (heap c)) (keymap c)"
    "length (heap c) < length (heap c1)" "key (heap c1 ! length (heap c)) = k" by simp_all
  have s: "snd (set' now k v c) = c1 \<or> snd (set' now k v c) = snd (removeLRUItem c1)"
    using assms(1) i by (auto simp add: set'_def split: sum.splits prod.splits)
  from s assms(2) removeLRUItem_lookup[of c1 k e] have "map_of (keymap c1) k = Some e" by auto
  with c1(1) have e: "e = length (heap c)" by (simp add: update_conv)
  from kk_removeLRUItem[of c1] c1(2,3)
  have "key (heap (snd (removeLRUItem c1)) ! length (heap c)) = k" by (simp add: keeps_keys_def)
  with s c1(3) have k: "key (heap (snd (set' now k v c)) ! length (heap c)) = k" by auto
  from set'_new_stamp[OF assms(1), of now v] e k show ?thesis by simp
qed

lemma assign_step_key: "key (heap (assign_step now x l c) ! length (heap c)) = fst x"
  by (cases l; simp add: assign_step_def Let_def new_Entry_def)

lemma processed_None [simp]: "processed None xs = xs"
  by (induction xs) simp_all

lemma processed_Some:
  "processed (Some n) xs = (if 0 \<le> n \<and> n < int (length xs) then take (nat n + 1) xs else xs)"
proof (induction xs arbitrary: n)
  case (Cons x xs)
  show ?case
  proof (cases "n = 0")
    case True
    then show ?thesis by simp
  next
    case False
    have "nat n = Suc (nat (n - 1))" if "0 \<le> n" using that False by simp
    with False Cons[of "n - 1"] show ?thesis by auto
  qed
qed simp

lemma loaded_eq:
  "loaded c es = (if 0 < limit c \<and> limit c < int (length es) then take (nat (limit c) + 1) es else es)"
  by (auto simp add: loaded_def processed_Some)

lemma assign_loop_untouched:
  "k \<notin> fst ` set (processed b xs) \<Longrightarrow>
   map_of (keymap (snd (assign_loop clock i xs l b c))) k = map_of (keymap c) k"
proof (induction xs arbitrary: i l b c)
  case (Cons x xs)
  show ?case
  proof (cases "b = Some 0")
    case True
    with Cons.prems show ?thesis by (simp add: update_conv)
  next
    case False
    with Cons.prems have n: "k \<noteq> fst x" "k \<notin> fst ` set (processed (map_option (\<lambda>n. n - 1) b) xs)"
      by auto
    from Cons.IH[OF n(2)] n(1) False show ?thesis by (simp add: update_conv)
  qed
qed simp

lemma assign_loop_entry:
  "last_with_key k (processed b xs) j \<Longrightarrow>
   map_of (keymap (snd (assign_loop clock i xs l b c))) k = Some (length (heap c) + j)
   \<and> key (heap (snd (assign_loop clock i xs l b c)) ! (length (heap c) + j)) = k
   \<and> CREATED_AT (heap (snd (assign_loop clock i xs l b c)) ! (length (heap c) + j)) = clock (i + j)
   \<and> length (heap c) + j < length (heap (snd (assign_loop clock i xs l b c)))"
proof (induction xs arbitrary: i l b c j)
  case Nil
  then show ?case by (simp add: last_with_key_def)
next
  case (Cons x xs)
  let ?c3 = "assign_step (clock i) x l c"
  let ?b = "map_option (\<lambda>n. n - 1) b"
  let ?rest = "assign_loop clock (Suc i) xs (Some (length (heap c))) ?b ?c3"
  show ?case
  proof (cases "b = Some 0")
    case True
    with Cons.prems have j: "j = 0" by (simp add: last_with_key_def)
    with True Cons.prems have "fst x = k" by (simp add: last_with_key_def)
    with True j show ?thesis by (simp add: update_conv assign_step_key assign_step_new)
  next
    case False
    then have eq: "assign_loop clock i (x # xs) l b c = ?rest" by simp
    from False have pr: "processed b (x # xs) = x # processed ?b xs" by simp
    show ?thesis
    proof (cases j)
      case 0
      with Cons.prems have k: "fst x = k" "k \<notin> fst ` set (processed ?b xs)"
        unfolding pr by (simp_all add: last_with_key_def)
      from kk_assign_loop[of ?c3 clock "Suc i" xs "Some (length (heap c))" ?b]
        ks_assign_loop[of ?c3 clock "Suc i" xs "Some (length (heap c))" ?b]
      have "key (heap (snd ?rest) ! length (heap c)) = key (heap ?c3 ! length (heap c))"
        "CREATED_AT (heap (snd ?rest) ! length (heap c)) = CREATED_AT (heap ?c3 ! length (heap c))"
        "length (heap c) < length (heap (snd ?rest))"
        by (simp_all add: keeps_keys_def keeps_stamps_def)
      with assign_loop_untouched[OF k(2), of clock "Suc i" "Some (length (heap c))" ?c3]
        k(1) show ?thesis unfolding eq 0 by (simp add: update_conv assign_step_key assign_step_new)
    next
      case (Suc j')
      with Cons.prems have "last_with_key k (processed ?b xs) j'"
        unfolding pr by (simp add: last_with_key_def)
      from Cons.IH[OF this, where i="Suc i" and l="Some (length (heap c))" and c="?c3"]
      show ?thesis unfolding eq Suc by simp
    qed
  qed
qed

lemma assign_entry_loaded:
  assumes "last_with_key k (loaded c es) j"
  shows "map_of (keymap (snd (assign clock es c))) k = Some (length (heap c) + j)
     \<and> key (heap (snd (assign clock es c)) ! (length (heap c) + j)) = k
     \<and> length (heap c) + j < length (heap (snd (assign clock es c)))
     \<and> CREATED_AT (heap (snd (assign clock es c)) ! (length (heap c) + j)) = clock j"
proof -
  define b where "b = (if limit c = 0 then None else Some (limit c))"
  let ?r = "assign_loop clock 0 es None b (c\<lparr>keymap := []\<rparr>)"
  from assms have lw: "last_with_key k (processed b es) j" by (simp add: loaded_def b_def)
  obtain r c1 where r: "?r = (r, c1)" by (cases ?r)
  from assign_loop_entry[OF lw, of clock 0 None "c\<lparr>keymap := []\<rparr>"] r
  show ?thesis by (cases r) (simp_all add: assign_def b_def[symmetric])
qed

lemma assign_returns_loaded:
  assumes "fst (assign clock es c) = Inr ()"
  shows "loaded c es = es"
proof (cases "0 < limit c")
  case True
  let ?r = "assign_loop clock 0 es None (Some (limit c)) (c\<lparr>keymap := []\<rparr>)"
  obtain r c1 where r: "?r = (r, c1)" by (cases ?r)
  with assms True obtain l where "r = Inr l" by (cases r) (auto simp: assign_def)
  with assign_loop_within[of clock 0 es None "limit c" "c\<lparr>keymap := []\<rparr>" l] r True
  have "int (length es) \<le> limit c" by simp
  then show ?thesis by (simp add: loaded_eq)
qed (simp add: loaded_eq)

lemma new_LRUCache_entry:
  assumes "new_LRUCache clock L arg2 arg3 = Inr c1" "given_entries arg2 arg3 = Some es"
    "last_with_key k es j"
  shows "map_of (keymap c1) k = Some j \<and> key (heap c1 ! j) = k \<and> j < length (heap c1)
     \<and> CREATED_AT (heap c1 ! j) = clock j"
proof -
  define limit0 where "limit0 = (case arg2 of Number n \<Rightarrow> n | NotNumber es \<Rightarrow> 0)"
  have new: "new_LRUCache clock L arg2 arg3 =
     (case given_entries arg2 arg3 of None \<Rightarrow> Inr (fresh L limit0)
      | Some es \<Rightarrow> (case assign clock es (fresh L limit0) of
            (Inl e, c1) \<Rightarrow> Inl e
          | (Inr u, c1) \<Rightarrow> Inr (if limit0 < 1 then c1\<lparr>limit := size' c1\<rparr> else c1)))"
    by (simp only: new_LRUCache_def limit0_def given_entries_def Let_def)
  obtain r c2 where a: "assign clock es (fresh L limit0) = (r, c2)"
    by (cases "assign clock es (fresh L limit0)")
  with new assms(1,2) have r: "r = Inr ()" and c1: "c1 = (if limit0 < 1 then c2\<lparr>limit := size' c2\<rparr> else c2)"
    by (cases r; simp)+
  from a r have ok: "fst (assign clock es (fresh L limit0)) = Inr ()" by simp
  from assms(3) assign_returns_loaded[OF ok] have "last_with_key k (loaded (fresh L limit0) es) j" by simp
  from assign_entry_loaded[OF this, of clock] a c1 show ?thesis by (simp add: fresh_def)
qed

section \<open>The chain of a well-formed cache\<close>

lemma linked_bounds: "linked h older as newer \<Longrightarrow> a \<in> set as \<Longrightarrow> a < length h"
  by (induction h older as newer rule: linked.induct) auto

lemma linked_append:
  "linked h older (xs @ ys) newer \<longleftrightarrow>
     linked h older xs (if ys = [] then newer else Some (hd ys))
     \<and> linked h (if xs = [] then older else Some (last xs)) ys newer"
proof (induction xs arbitrary: older)
  case Nil
  then show ?case by simp
next
  case (Cons a xs)
  show ?case by (auto simp add: Cons.IH hd_append)
qed

lemma linked_ends:
  "linked h older as newer \<Longrightarrow> as \<noteq> [] \<Longrightarrow>
   NEXT (h ! hd as) = older \<and> PREVIOUS (h ! last as) = newer"
  by (induction as arbitrary: older) (auto split: if_splits)

lemma linked_snoc:
  "linked h older (as @ [a]) newer \<longleftrightarrow>
     a < length h \<and> PREVIOUS (h ! a) = newer
     \<and> NEXT (h ! a) = (if as = [] then older else Some (last as))
     \<and> linked h older as (Some a)"
  by (auto simp add: linked_append)

text \<open>
  Re-linking: a linked segment of one heap is linked in another heap in which its entries
  are allocated and keep their inner links, with the outer links as stated.
\<close>

lemma linked_relink:
  assumes "linked h0 older0 as newer0" "distinct as"
    and "\<forall>a\<in>set as. a < length h"
    and "\<forall>a\<in>set as. a \<noteq> hd as \<longrightarrow> NEXT (h ! a) = NEXT (h0 ! a)"
    and "\<forall>a\<in>set as. a \<noteq> last as \<longrightarrow> PREVIOUS (h ! a) = PREVIOUS (h0 ! a)"
    and "as \<noteq> [] \<longrightarrow> NEXT (h ! hd as) = older \<and> PREVIOUS (h ! last as) = newer"
  shows "linked h older as newer"
  using assms
proof (induction as arbitrary: older older0)
  case Nil
  then show ?case by simp
next
  case (Cons a as)
  show ?case
  proof (cases "as = []")
    case True
    with Cons.prems show ?thesis by simp
  next
    case False
    then have la: "last as \<in> set as" "hd as \<in> set as" "last (a # as) = last as" by simp_all
    from Cons.prems(2) have na: "a \<notin> set as" "distinct as" by simp_all
    from la na have ne: "a \<noteq> last as" "hd as \<noteq> a" by auto
    from Cons.prems(1) have l0: "linked h0 (Some a) as newer0" "PREVIOUS (h0 ! a) = Some (hd as)"
      using False by simp_all
    from l0(1) False have n0: "NEXT (h0 ! hd as) = Some a" by (cases as) simp_all
    have "linked h (Some a) as newer"
    proof (rule Cons.IH[OF l0(1) na(2)])
      show "\<forall>a\<in>set as. a < length h" using Cons.prems(3) by simp
      show "\<forall>x\<in>set as. x \<noteq> hd as \<longrightarrow> NEXT (h ! x) = NEXT (h0 ! x)"
        using Cons.prems(4) na(1) by auto
      show "\<forall>x\<in>set as. x \<noteq> last as \<longrightarrow> PREVIOUS (h ! x) = PREVIOUS (h0 ! x)"
        using Cons.prems(5) la(3) by auto
      show "as \<noteq> [] \<longrightarrow> NEXT (h ! hd as) = Some a \<and> PREVIOUS (h ! last as) = newer"
        using Cons.prems(4,6) la ne n0 by auto
    qed
    moreover have "PREVIOUS (h ! a) = Some (hd as)"
      using Cons.prems(5) ne la l0(2) by auto
    ultimately show ?thesis using Cons.prems(3,6) False by simp
  qed
qed

lemma walk_linked:
  "linked h older as None \<Longrightarrow> length as \<le> n \<Longrightarrow>
   walk n h (if as = [] then None else Some (hd as)) = Some as"
proof (induction as arbitrary: n older)
  case Nil
  then show ?case by simp
next
  case (Cons a as)
  then obtain m where n: "n = Suc m" by (cases n) auto
  from Cons.prems have "linked h (Some a) as None" "length as \<le> m"
    by (auto simp add: n)
  from Cons.IH[OF this] Cons.prems show ?case
    by (auto simp add: n)
qed

lemma distinct_bounded_length:
  assumes "distinct as" "\<forall>a\<in>set as. a < (n::nat)"
  shows "length as \<le> n"
proof -
  have "card (set as) \<le> card {..<n}" using assms(2) by (intro card_mono) auto
  with distinct_card[OF assms(1)] show ?thesis by simp
qed

lemma wf_chain_chain: "wf_chain c as \<Longrightarrow> chain c = Some as"
proof -
  assume i: "wf_chain c as"
  then have l: "linked (heap c) None as None" and d: "distinct as"
    and t: "tail c = (if as = [] then None else Some (hd as))"
    by (simp_all add: wf_chain_def)
  from linked_bounds[OF l] d have "length as \<le> length (heap c)"
    by (intro distinct_bounded_length) auto
  from walk_linked[OF l this] t show ?thesis by (simp add: chain_def)
qed

lemma well_formed_iff: "well_formed c \<longleftrightarrow> (\<exists>as. wf_chain c as)"
  by (auto simp add: well_formed_def wf_chain_chain split: option.splits)

lemma wf_chain_lookup:
  assumes "wf_chain c as"
  shows "map_of (keymap c) k = Some e \<longleftrightarrow> e \<in> set as \<and> key (heap c ! e) = k"
proof -
  from assms have d: "distinct (map fst (keymap c))"
    and s: "set (keymap c) = set (map (\<lambda>a. (key (heap c ! a), a)) as)"
    by (simp_all add: wf_chain_def)
  have "map_of (keymap c) k = Some e \<longleftrightarrow> (k, e) \<in> set (keymap c)"
    using d by (auto intro: map_of_is_SomeI dest: map_of_SomeD)
  also have "\<dots> \<longleftrightarrow> e \<in> set as \<and> key (heap c ! e) = k" unfolding s by auto
  finally show ?thesis .
qed

lemma wf_chain_keys_inj:
  assumes "wf_chain c as" "a \<in> set as" "b \<in> set as" "key (heap c ! a) = key (heap c ! b)"
  shows "a = b"
proof -
  from wf_chain_lookup[OF assms(1), of "key (heap c ! b)" a] wf_chain_lookup[OF assms(1), of "key (heap c ! b)" b] assms
  show ?thesis by simp
qed

lemma update_fresh: "k \<notin> fst ` set al \<Longrightarrow> AList.update k v al = al @ [(k, v)]"
  by (induction al) auto

lemma set_delete: "set (AList.delete k al) = {p \<in> set al. fst p \<noteq> k}"
  by (auto simp add: AList.delete_eq)

lemma wf_chain_keymap_remove:
  assumes "wf_chain c as" "e \<in> set as"
  shows "set (AList.delete (key (heap c ! e)) (keymap c))
           = set (map (\<lambda>a. (key (heap c ! a), a)) (remove1 e as))"
proof -
  from assms(1) have d: "distinct as"
    and s: "set (keymap c) = set (map (\<lambda>a. (key (heap c ! a), a)) as)"
    by (simp_all add: wf_chain_def)
  show ?thesis
    using wf_chain_keys_inj[OF assms(1) _ assms(2)] d assms(2)
    by (auto simp add: set_delete s)
qed

lemma purge_fields [simp]:
  "tail (purgeRemovedEntry e c) = tail c" "head (purgeRemovedEntry e c) = head c"
  "lifetime (purgeRemovedEntry e c) = lifetime c"
  "length (heap (purgeRemovedEntry e c)) = length (heap c)"
  "key (heap (purgeRemovedEntry e c) ! b) = key (heap c ! b)"
  "value' (heap (purgeRemovedEntry e c) ! b) = value' (heap c ! b)"
  "keymap (purgeRemovedEntry e c) = AList.delete (key (heap c ! e)) (keymap c)"
  by (simp_all add: purgeRemovedEntry_def Let_def)

lemma purge_links [simp]:
  "b \<noteq> e \<Longrightarrow> NEXT (heap (purgeRemovedEntry e c) ! b) = NEXT (heap c ! b)"
  "b \<noteq> e \<Longrightarrow> PREVIOUS (heap (purgeRemovedEntry e c) ! b) = PREVIOUS (heap c ! b)"
  by (simp_all add: purgeRemovedEntry_def Let_def)

lemma removeLRUItem_empty: "wf_chain c [] \<Longrightarrow> removeLRUItem c = (Inr None, c)"
  by (simp add: wf_chain_def removeLRUItem_def)

lemma removeLRUItem_wf_chain:
  assumes "wf_chain c (a # as)"
  shows "fst (removeLRUItem c) = Inr (Some (key (heap c ! a), value' (heap c ! a)))"
    and "wf_chain (snd (removeLRUItem c)) as"
    and "key (heap (snd (removeLRUItem c)) ! b) = key (heap c ! b)"
    and "value' (heap (snd (removeLRUItem c)) ! b) = value' (heap c ! b)"
    and "lifetime (snd (removeLRUItem c)) = lifetime c"
proof -
  from assms have d: "distinct (a # as)" and l: "linked (heap c) None (a # as) None"
    and t: "tail c = Some a" and sz: "size' c = 1 + int (length as)"
    and dk: "distinct (map fst (keymap c))"
    by (simp_all add: wf_chain_def)
  from wf_chain_keymap_remove[OF assms, of a]
  have km: "set (AList.delete (key (heap c ! a)) (keymap c)) = set (map (\<lambda>a. (key (heap c ! a), a)) as)"
    by simp
  show "fst (removeLRUItem c) = Inr (Some (key (heap c ! a), value' (heap c ! a)))"
    "key (heap (snd (removeLRUItem c)) ! b) = key (heap c ! b)"
    "value' (heap (snd (removeLRUItem c)) ! b) = value' (heap c ! b)"
    "lifetime (snd (removeLRUItem c)) = lifetime c"
    using l t sz by (cases as; simp add: removeLRUItem_def Let_def)+
  show "wf_chain (snd (removeLRUItem c)) as"
  proof (cases as)
    case Nil
    with t sz km dk show ?thesis
      by (simp add: removeLRUItem_def Let_def wf_chain_def AList.distinct_delete)
  next
    case (Cons b bs)
    let ?c' = "snd (removeLRUItem c)"
    have c': "?c' = purgeRemovedEntry a ((set_NEXT b None (c\<lparr>tail := Some b\<rparr>))\<lparr>size' := size' c - 1\<rparr>)"
      using l t sz Cons by (simp add: removeLRUItem_def Let_def)
    have l': "linked (heap c) (Some a) as None" using l by simp
    have d': "distinct as" using d by simp
    have na: "x \<noteq> a" "a \<noteq> x" if "x \<in> set as" for x using d that by auto
    have "linked (heap ?c') None as None"
    proof (rule linked_relink[OF l' d'])
      show "\<forall>x\<in>set as. x < length (heap ?c')" using linked_bounds[OF l] by (simp add: c')
      show "\<forall>x\<in>set as. x \<noteq> hd as \<longrightarrow> NEXT (heap ?c' ! x) = NEXT (heap c ! x)"
        using Cons by (simp add: c' na)
      show "\<forall>x\<in>set as. x \<noteq> last as \<longrightarrow> PREVIOUS (heap ?c' ! x) = PREVIOUS (heap c ! x)"
        by (simp add: c' na)
      show "as \<noteq> [] \<longrightarrow> NEXT (heap ?c' ! hd as) = None \<and> PREVIOUS (heap ?c' ! last as) = None"
        using Cons linked_ends[OF l] linked_bounds[OF l, of b] na[of b] na[of "last as"]
        by (simp add: c')
    qed
    moreover have "head ?c' = Some (last as)" "tail ?c' = Some (hd as)" "size' ?c' = int (length as)"
      using assms Cons by (simp_all add: c' wf_chain_def)
    moreover have "distinct (map fst (keymap ?c'))" using dk by (simp add: c' AList.distinct_delete)
    moreover have "set (keymap ?c') = set (map (\<lambda>x. (key (heap ?c' ! x), x)) as)"
      using km by (simp add: c')
    ultimately show ?thesis using d Cons by (simp add: wf_chain_def)
  qed
qed

lemma linked_cong:
  assumes "length h' = length h"
    and "\<forall>a\<in>set as. NEXT (h' ! a) = NEXT (h ! a) \<and> PREVIOUS (h' ! a) = PREVIOUS (h ! a)"
  shows "linked h' older as newer = linked h older as newer"
  using assms by (induction as arbitrary: older) auto

lemma wf_chain_cong:
  assumes "tail c' = tail c" "head c' = head c" "size' c' = size' c" "keymap c' = keymap c"
    and "length (heap c') = length (heap c)"
    and "\<forall>a. NEXT (heap c' ! a) = NEXT (heap c ! a) \<and> PREVIOUS (heap c' ! a) = PREVIOUS (heap c ! a)
            \<and> key (heap c' ! a) = key (heap c ! a)"
  shows "wf_chain c' as = wf_chain c as"
  using assms linked_cong[of "heap c'" "heap c" as None None] by (simp add: wf_chain_def)

lemma set_value_wf_chain: "wf_chain (set_value e v c) as = wf_chain c as"
  by (rule wf_chain_cong) simp_all

lemma wf_chain_Nil: "wf_chain c [] \<longleftrightarrow> vacant c"
  by (auto simp add: wf_chain_def vacant_def)

lemma insertEntry_wf_chain:
  assumes "wf_chain c as" "map_of (keymap c) k = None"
  shows "fst (insertEntry now k v c) = Inr ()"
    and "wf_chain (snd (insertEntry now k v c)) (as @ [length (heap c)])"
    and "heap (snd (insertEntry now k v c)) ! length (heap c)
           = (new_Entry now k v)\<lparr>NEXT := (if as = [] then None else Some (last as))\<rparr>"
    and "x < length (heap c) \<Longrightarrow> key (heap (snd (insertEntry now k v c)) ! x) = key (heap c ! x)"
    and "x < length (heap c) \<Longrightarrow> value' (heap (snd (insertEntry now k v c)) ! x) = value' (heap c ! x)"
    and "lifetime (snd (insertEntry now k v c)) = lifetime c"
    and "length (heap (snd (insertEntry now k v c))) = Suc (length (heap c))"
proof -
  let ?e = "length (heap c)"
  let ?c' = "snd (insertEntry now k v c)"
  from assms(1) have d: "distinct as" and l: "linked (heap c) None as None"
    and hd: "head c = (if as = [] then None else Some (last as))"
    and sz: "size' c = int (length as)"
    and dk: "distinct (map fst (keymap c))"
    and km: "set (keymap c) = set (map (\<lambda>a. (key (heap c ! a), a)) as)"
    and tl: "tail c = (if as = [] then None else Some (hd as))"
    by (simp_all add: wf_chain_def)
  from assms(2) have nk: "k \<notin> fst ` set (keymap c)" by (simp add: map_of_eq_None_iff)
  have lt: "x < ?e" "x \<noteq> ?e" "?e \<noteq> x" if "x \<in> set as" for x
    using linked_bounds[OF l that] by simp_all
  show r: "fst (insertEntry now k v c) = Inr ()"
    using hd sz by (cases "as = []") (simp_all add: insertEntry_def Let_def)
  have c': "?c' = (if as = []
      then c\<lparr>heap := heap c @ [new_Entry now k v], keymap := keymap c @ [(k, ?e)],
             tail := Some ?e, head := Some ?e, size' := 1\<rparr>
      else (set_NEXT ?e (Some (last as)) (set_PREVIOUS (last as) (Some ?e)
              (c\<lparr>heap := heap c @ [new_Entry now k v], keymap := keymap c @ [(k, ?e)]\<rparr>)))
             \<lparr>head := Some ?e, size' := size' c + 1\<rparr>)"
    using hd sz nk by (cases "as = []") (simp_all add: insertEntry_def Let_def update_fresh)
  show "heap ?c' ! ?e = (new_Entry now k v)\<lparr>NEXT := (if as = [] then None else Some (last as))\<rparr>"
    using lt[of "last as"] by (simp add: c' set_NEXT_def set_PREVIOUS_def new_Entry_def)
  show "key (heap ?c' ! x) = key (heap c ! x)" "value' (heap ?c' ! x) = value' (heap c ! x)"
    if "x < length (heap c)" for x
    using that by (simp_all add: c' nth_append)
  show "lifetime ?c' = lifetime c" "length (heap ?c') = Suc (length (heap c))" by (simp_all add: c')
  show "wf_chain ?c' (as @ [?e])"
  proof (cases "as = []")
    case True
    with assms(1) have "keymap c = []" by (simp add: wf_chain_Nil vacant_def)
    with True show ?thesis by (simp add: c' wf_chain_def new_Entry_def)
  next
    case False
    have "linked (heap ?c') None as (Some ?e)"
    proof (rule linked_relink[OF l d])
      show "\<forall>x\<in>set as. x < length (heap ?c')" using lt(1) by (auto simp add: c' False less_Suc_eq)
      show "\<forall>x\<in>set as. x \<noteq> hd as \<longrightarrow> NEXT (heap ?c' ! x) = NEXT (heap c ! x)"
        using lt by (simp add: c' False nth_append)
      show "\<forall>x\<in>set as. x \<noteq> last as \<longrightarrow> PREVIOUS (heap ?c' ! x) = PREVIOUS (heap c ! x)"
        using lt by (simp add: c' False nth_append)
      show "as \<noteq> [] \<longrightarrow> NEXT (heap ?c' ! hd as) = None \<and> PREVIOUS (heap ?c' ! last as) = Some ?e"
        using lt[of "last as"] lt[of "hd as"] linked_ends[OF l] False
        by (simp add: c' nth_append)
    qed
    moreover have "NEXT (heap ?c' ! ?e) = Some (last as)" "PREVIOUS (heap ?c' ! ?e) = None"
      using lt[of "last as"] False by (simp_all add: c' new_Entry_def)
    moreover have "set (keymap ?c') = set (map (\<lambda>x. (key (heap ?c' ! x), x)) (as @ [?e]))"
      using lt km False by (auto simp add: c' nth_append new_Entry_def)
    moreover have "distinct (map fst (keymap ?c'))" using dk nk by (simp add: c')
    moreover have "distinct (as @ [?e])" using d lt by auto
    ultimately show ?thesis using False sz hd tl by (simp add: wf_chain_def linked_snoc c')
  qed
qed

lemma wf_chain_split:
  assumes "wf_chain c as" "e \<in> set as"
  obtains xs ys where "as = xs @ e # ys" "e \<notin> set xs" "e \<notin> set ys" "distinct xs" "distinct ys"
    "set xs \<inter> set ys = {}"
    "linked (heap c) None xs (Some e)" "linked (heap c) (Some e) ys None"
    "e < length (heap c)"
    "NEXT (heap c ! e) = (if xs = [] then None else Some (last xs))"
    "PREVIOUS (heap c ! e) = (if ys = [] then None else Some (hd ys))"
    "remove1 e as = xs @ ys"
proof -
  from assms(1) have d: "distinct as" and l: "linked (heap c) None as None" by (simp_all add: wf_chain_def)
  from split_list[OF assms(2)] obtain xs ys where as: "as = xs @ e # ys" by blast
  with d have n: "e \<notin> set xs" "e \<notin> set ys" "distinct xs" "distinct ys" "set xs \<inter> set ys = {}"
    by auto
  from l have "linked (heap c) None xs (Some e)" "linked (heap c) (Some e) ys None"
    "e < length (heap c)"
    "NEXT (heap c ! e) = (if xs = [] then None else Some (last xs))"
    "PREVIOUS (heap c ! e) = (if ys = [] then None else Some (hd ys))"
    by (simp_all add: as linked_append)
  moreover have "remove1 e as = xs @ ys" using n by (simp add: as remove1_append)
  ultimately show ?thesis using that[OF as n] by blast
qed

lemma delete'_wf_chain:
  assumes "wf_chain c as" "map_of (keymap c) k = Some e"
  shows "fst (delete' k c) = Some (value' (heap c ! e))"
    and "wf_chain (snd (delete' k c)) (remove1 e as)"
    and "key (heap (snd (delete' k c)) ! b) = key (heap c ! b)"
    and "value' (heap (snd (delete' k c)) ! b) = value' (heap c ! b)"
    and "lifetime (snd (delete' k c)) = lifetime c"
proof -
  let ?c' = "snd (delete' k c)"
  let ?h = "heap c"
  from wf_chain_lookup[OF assms(1)] assms(2) have e: "e \<in> set as" and k: "key (?h ! e) = k" by simp_all
  from assms(1) have d: "distinct as" and l: "linked ?h None as None"
    and hd: "head c = (if as = [] then None else Some (last as))"
    and tl: "tail c = (if as = [] then None else Some (hd as))"
    and sz: "size' c = int (length as)"
    and dk: "distinct (map fst (keymap c))"
    by (simp_all add: wf_chain_def)
  from assms(1) e obtain xs ys where as: "as = xs @ e # ys"
    and n: "e \<notin> set xs" "e \<notin> set ys" "distinct xs" "distinct ys" "set xs \<inter> set ys = {}"
    and lx: "linked ?h None xs (Some e)" and ly: "linked ?h (Some e) ys None"
    and eb: "e < length ?h"
    and ne: "NEXT (?h ! e) = (if xs = [] then None else Some (last xs))"
    and pe: "PREVIOUS (?h ! e) = (if ys = [] then None else Some (hd ys))"
    and rm: "remove1 e as = xs @ ys"
    by (rule wf_chain_split)
  have kk: "key (heap ?c' ! x) = key (?h ! x)" for x
    using assms(2) by (simp add: delete'_def Let_def split: option.splits)
  show "fst (delete' k c) = Some (value' (?h ! e))" "key (heap ?c' ! b) = key (?h ! b)"
    "value' (heap ?c' ! b) = value' (?h ! b)" "lifetime ?c' = lifetime c"
    using assms(2) by (simp_all add: delete'_def Let_def split: option.splits)
  have len: "length (heap ?c') = length ?h"
    using assms(2) by (simp add: delete'_def Let_def split: option.splits)
  have bx: "x < length ?h" "x \<noteq> e" if "x \<in> set xs" for x
    using linked_bounds[OF lx that] n that by auto
  have by': "x < length ?h" "x \<noteq> e" if "x \<in> set ys" for x
    using linked_bounds[OF ly that] n that by auto
  have xy: "x \<noteq> y" if "x \<in> set xs" "y \<in> set ys" for x y using n(5) that by auto
  have nhd: "x \<noteq> hd ys" if "x \<in> set xs" "ys \<noteq> []" for x using xy[OF that(1), of "hd ys"] that(2) by simp
  have nlast: "y \<noteq> last xs" if "y \<in> set ys" "xs \<noteq> []" for y using xy[OF _ that(1), of "last xs"] that(2) by auto
  have hne: "hd xs \<noteq> hd ys" if "xs \<noteq> []" "ys \<noteq> []" using nhd[of "hd xs"] that by simp
  have lne: "last ys \<noteq> last xs" if "xs \<noteq> []" "ys \<noteq> []" using nlast[of "last ys"] that by simp
  have nx: "NEXT (heap ?c' ! x) = (if ys \<noteq> [] \<and> x = hd ys then NEXT (?h ! e) else NEXT (?h ! x))" for x
    using assms(2) k ne pe by'[of "hd ys"]
    by (auto simp add: delete'_def Let_def)
  have pv: "PREVIOUS (heap ?c' ! x) = (if xs \<noteq> [] \<and> x = last xs then PREVIOUS (?h ! e) else PREVIOUS (?h ! x))" for x
    using assms(2) k ne pe bx[of "last xs"]
    by (auto simp add: delete'_def Let_def)
  have ends: "tail ?c' = (if xs @ ys = [] then None else Some (hd (xs @ ys)))"
    "head ?c' = (if xs @ ys = [] then None else Some (last (xs @ ys)))"
    "size' ?c' = int (length (xs @ ys))"
    "keymap ?c' = AList.delete k (keymap c)"
    using assms(2) k ne pe hd tl sz
    by (auto simp add: delete'_def Let_def as hd_append)
  have "linked (heap ?c') None xs (if ys = [] then None else Some (hd ys))"
  proof (rule linked_relink[OF lx n(3)])
    show "\<forall>a\<in>set xs. a < length (heap ?c')" using bx by (simp add: len)
    show "\<forall>a\<in>set xs. a \<noteq> hd xs \<longrightarrow> NEXT (heap ?c' ! a) = NEXT (?h ! a)"
      using nhd by (auto simp add: nx)
    show "\<forall>a\<in>set xs. a \<noteq> last xs \<longrightarrow> PREVIOUS (heap ?c' ! a) = PREVIOUS (?h ! a)"
      by (simp add: pv)
    show "xs \<noteq> [] \<longrightarrow> NEXT (heap ?c' ! hd xs) = None
            \<and> PREVIOUS (heap ?c' ! last xs) = (if ys = [] then None else Some (hd ys))"
      using linked_ends[OF lx] hne pe by (auto simp add: nx pv)
  qed
  moreover have "linked (heap ?c') (if xs = [] then None else Some (last xs)) ys None"
  proof (rule linked_relink[OF ly n(4)])
    show "\<forall>a\<in>set ys. a < length (heap ?c')" using by' by (simp add: len)
    show "\<forall>a\<in>set ys. a \<noteq> hd ys \<longrightarrow> NEXT (heap ?c' ! a) = NEXT (?h ! a)"
      by (simp add: nx)
    show "\<forall>a\<in>set ys. a \<noteq> last ys \<longrightarrow> PREVIOUS (heap ?c' ! a) = PREVIOUS (?h ! a)"
      using nlast by (auto simp add: pv)
    show "ys \<noteq> [] \<longrightarrow> NEXT (heap ?c' ! hd ys) = (if xs = [] then None else Some (last xs))
            \<and> PREVIOUS (heap ?c' ! last ys) = None"
      using linked_ends[OF ly] lne ne by (auto simp add: nx pv)
  qed
  ultimately have "linked (heap ?c') None (xs @ ys) None" by (simp add: linked_append)
  moreover have "set (keymap ?c') = set (map (\<lambda>a. (key (heap ?c' ! a), a)) (xs @ ys))"
    using wf_chain_keymap_remove[OF assms(1) e] k rm
    by (simp add: ends kk)
  moreover have "distinct (map fst (keymap ?c'))" using dk by (simp add: ends AList.distinct_delete)
  moreover have "distinct (xs @ ys)" using n by simp
  ultimately show "wf_chain ?c' (remove1 e as)" using ends(1,2,3) unfolding rm wf_chain_def by simp
qed

lemma remove1_last_snoc: "distinct as \<Longrightarrow> as \<noteq> [] \<Longrightarrow> remove1 (last as) as @ [last as] = as"
proof (induction as rule: rev_induct)
  case (snoc x xs)
  then show ?case by (simp add: remove1_append)
qed simp

lemma markEntryAsUsed_wf_chain:
  assumes "wf_chain c as" "e \<in> set as"
  shows "fst (markEntryAsUsed now e r c) = Inr ()"
    and "wf_chain (snd (markEntryAsUsed now e r c)) (remove1 e as @ [e])"
    and "key (heap (snd (markEntryAsUsed now e r c)) ! b) = key (heap c ! b)"
    and "value' (heap (snd (markEntryAsUsed now e r c)) ! b) = value' (heap c ! b)"
    and "lifetime (snd (markEntryAsUsed now e r c)) = lifetime c"
    and "head (snd (markEntryAsUsed now e r c)) = Some e"
proof -
  let ?c' = "snd (markEntryAsUsed now e r c)"
  let ?h = "heap c"
  from assms(1) have d: "distinct as" and l: "linked ?h None as None"
    and hd: "head c = (if as = [] then None else Some (last as))"
    and tl: "tail c = (if as = [] then None else Some (hd as))"
    and sz: "size' c = int (length as)"
    and dk: "distinct (map fst (keymap c))"
    and km: "set (keymap c) = set (map (\<lambda>a. (key (heap c ! a), a)) as)"
    by (simp_all add: wf_chain_def)
  have kv: "key (heap ?c' ! x) = key (?h ! x) \<and> value' (heap ?c' ! x) = value' (?h ! x)
     \<and> lifetime ?c' = lifetime c \<and> keymap ?c' = keymap c \<and> length (heap ?c') = length ?h" for x
    by (auto simp add: markEntryAsUsed_def Let_def split: option.splits)
  from kv[of b] show "key (heap ?c' ! b) = key (?h ! b)" "value' (heap ?c' ! b) = value' (?h ! b)"
    "lifetime ?c' = lifetime c" by simp_all
  have "fst (markEntryAsUsed now e r c) = Inr () \<and> wf_chain ?c' (remove1 e as @ [e]) \<and> head ?c' = Some e"
  proof (cases "e = last as")
    case True
    with assms(2) hd have "head c = Some e" by auto
    then have "markEntryAsUsed now e r c = (Inr (), c)" by (simp add: markEntryAsUsed_def)
    moreover from assms(2) have "as \<noteq> []" by auto
    ultimately show ?thesis using True assms(1) remove1_last_snoc[OF d] \<open>head c = Some e\<close> by simp
  next
    case False
    from assms obtain xs ys where as: "as = xs @ e # ys"
      and n: "e \<notin> set xs" "e \<notin> set ys" "distinct xs" "distinct ys" "set xs \<inter> set ys = {}"
      and lx: "linked ?h None xs (Some e)" and ly: "linked ?h (Some e) ys None"
      and eb: "e < length ?h"
      and ne: "NEXT (?h ! e) = (if xs = [] then None else Some (last xs))"
      and pe: "PREVIOUS (?h ! e) = (if ys = [] then None else Some (hd ys))"
      and rm: "remove1 e as = xs @ ys"
      by (rule wf_chain_split)
    from False as have ys: "ys \<noteq> []" by auto
    have bx: "x < length ?h" "x \<noteq> e" "e \<noteq> x" if "x \<in> set xs" for x
      using linked_bounds[OF lx that] n that by auto
    have by': "x < length ?h" "x \<noteq> e" "e \<noteq> x" if "x \<in> set ys" for x
      using linked_bounds[OF ly that] n that by auto
    have xy: "x \<noteq> y" "y \<noteq> x" if "x \<in> set xs" "y \<in> set ys" for x y using n(5) that by auto
    have hy: "hd ys \<in> set ys" "last ys \<in> set ys" using ys by simp_all
    have lxs: "last xs \<in> set xs" "hd xs \<in> set xs" if "xs \<noteq> []" using that by simp_all
    have nlast: "y \<noteq> last xs" if "y \<in> set ys" "xs \<noteq> []" for y
      using xy(2)[OF lxs(1) that(1)] that(2) by simp
    have nys: "x \<noteq> hd ys" "x \<noteq> last ys" if "x \<in> set xs" for x
      using xy(1)[OF that hy(1)] xy(1)[OF that hy(2)] by simp_all
    have hc: "head c = Some (last ys)" using hd ys by (simp add: as)
    have tc: "tail c = (if xs = [] then Some e else Some (hd xs))" using tl by (simp add: as hd_append)
    have pe': "PREVIOUS (?h ! e) = Some (hd ys)" using pe ys by simp
    have r: "fst (markEntryAsUsed now e r c) = Inr ()"
      using hc tc pe' ne by'[of "last ys"] by'[of "hd ys"] hy bx[of "hd xs"] bx[of "last xs"] lxs
      by (auto simp add: markEntryAsUsed_def Let_def)
    have nx: "NEXT (heap ?c' ! x) = (if x = e then Some (last ys) else if x = hd ys then NEXT (?h ! e)
                 else NEXT (?h ! x))" for x
      using hc tc pe' ne by'[of "last ys"] by'[of "hd ys"] hy bx[of "hd xs"] bx[of "last xs"] lxs eb
      by (auto simp add: markEntryAsUsed_def Let_def)
    have pv: "PREVIOUS (heap ?c' ! x) = (if x = last ys then Some e else if x = e then None
                 else if xs \<noteq> [] \<and> x = last xs then Some (hd ys) else PREVIOUS (?h ! x))" for x
      using hc tc pe' ne by'[of "last ys"] by'[of "hd ys"] hy bx[of "hd xs"] bx[of "last xs"] lxs eb
      by (auto simp add: markEntryAsUsed_def Let_def)
    have ends: "tail ?c' = (if xs = [] then Some (hd ys) else Some (hd xs))" "head ?c' = Some e"
      "size' ?c' = size' c"
      using hc tc pe' ne by'[of "last ys"] by'[of "hd ys"] hy bx[of "hd xs"] bx[of "last xs"] lxs eb
      by (auto simp add: markEntryAsUsed_def Let_def)
    have "linked (heap ?c') None xs (Some (hd ys))"
    proof (rule linked_relink[OF lx n(3)])
      show "\<forall>a\<in>set xs. a < length (heap ?c')" using bx by (simp add: kv)
      show "\<forall>a\<in>set xs. a \<noteq> hd xs \<longrightarrow> NEXT (heap ?c' ! a) = NEXT (?h ! a)"
        using bx nys by (auto simp add: nx)
      show "\<forall>a\<in>set xs. a \<noteq> last xs \<longrightarrow> PREVIOUS (heap ?c' ! a) = PREVIOUS (?h ! a)"
        using bx nys by (auto simp add: pv)
      show "xs \<noteq> [] \<longrightarrow> NEXT (heap ?c' ! hd xs) = None \<and> PREVIOUS (heap ?c' ! last xs) = Some (hd ys)"
        using linked_ends[OF lx] bx[of "hd xs"] bx[of "last xs"] nys[of "hd xs"] nys[of "last xs"] lxs
        by (auto simp add: nx pv)
    qed
    moreover have "linked (heap ?c') (if xs = [] then None else Some (last xs)) ys (Some e)"
    proof (rule linked_relink[OF ly n(4)])
      show "\<forall>a\<in>set ys. a < length (heap ?c')" using by' by (simp add: kv)
      show "\<forall>a\<in>set ys. a \<noteq> hd ys \<longrightarrow> NEXT (heap ?c' ! a) = NEXT (?h ! a)"
        using by' by (auto simp add: nx)
      show "\<forall>a\<in>set ys. a \<noteq> last ys \<longrightarrow> PREVIOUS (heap ?c' ! a) = PREVIOUS (?h ! a)"
        using by' nlast by (auto simp add: pv)
      show "ys \<noteq> [] \<longrightarrow> NEXT (heap ?c' ! hd ys) = (if xs = [] then None else Some (last xs))
              \<and> PREVIOUS (heap ?c' ! last ys) = Some e"
        using by' hy ne by (auto simp add: nx pv)
    qed
    moreover have "NEXT (heap ?c' ! e) = Some (last ys)" "PREVIOUS (heap ?c' ! e) = None"
      using by' hy by (auto simp add: nx pv)
    ultimately have "linked (heap ?c') None (xs @ ys @ [e]) None"
      using ys eb by (simp add: linked_append kv)
    moreover have "set (keymap ?c') = set (map (\<lambda>a. (key (heap ?c' ! a), a)) (xs @ ys @ [e]))"
      using km by (auto simp add: kv as)
    moreover have "distinct (xs @ ys @ [e])" using n by auto
    ultimately have "wf_chain ?c' (xs @ ys @ [e])"
      using ends sz dk ys unfolding wf_chain_def by (auto simp add: kv as hd_append)
    with r ends(2) rm show ?thesis by simp
  qed
  then show "fst (markEntryAsUsed now e r c) = Inr ()" "wf_chain ?c' (remove1 e as @ [e])"
    "head ?c' = Some e" by simp_all
qed

section \<open>Reading: has and get\<close>

text \<open>The pairs of the entries at the addresses \<open>as\<close>.\<close>
lemma entries_wf_chain:
  "wf_chain c as \<Longrightarrow> entries c = Some (map (\<lambda>a. (key (heap c ! a), value' (heap c ! a))) as)"
  by (simp add: entries_def wf_chain_chain)

lemma wf_chain_unique: "wf_chain c as \<Longrightarrow> wf_chain c bs \<Longrightarrow> as = bs"
  using wf_chain_chain[of c as] wf_chain_chain[of c bs] by simp



lemma has_wf_chain:
  assumes "wf_chain c as" "map_of (keymap c) k = Some e"
  shows "\<not> expired now k c \<Longrightarrow> has now k c = (True, c)"
    and "expired now k c \<Longrightarrow> fst (has now k c) = False \<and> snd (has now k c) = snd (delete' k c)
           \<and> wf_chain (snd (has now k c)) (remove1 e as)"
  using assms delete'_wf_chain(2)[OF assms]
  by (auto simp add: has_def expired_def split: option.splits)

lemma has_absent: "map_of (keymap c) k = None \<Longrightarrow> has now k c = (False, c)"
  by (simp add: has_def)

lemma has_false_iff: "fst (has now k c) = False \<longleftrightarrow> map_of (keymap c) k = None \<or> expired now k c"
  by (auto simp add: has_def expired_def split: option.splits)

lemma has_true_state: "fst (has now k c) \<Longrightarrow> snd (has now k c) = c"
  by (auto simp add: has_def split: option.splits if_splits)

lemma get_NotFound_iff:
  "fst (get now k c) = Inl NotFound \<longleftrightarrow> map_of (keymap c) k = None \<or> expired now k c"
proof -
  obtain b c1 where h: "has now k c = (b, c1)" by (cases "has now k c")
  show ?thesis
  proof (cases b)
    case False
    with h has_false_iff[of now k c] show ?thesis by (simp add: get_def)
  next
    case True
    with h has_true_state[of now k c] have c1: "c1 = c" by simp
    from True h has_false_iff[of now k c] have ne: "\<not> (map_of (keymap c) k = None \<or> expired now k c)"
      by simp
    then obtain e where e: "map_of (keymap c) k = Some e" by auto
    obtain r c2 where m: "markEntryAsUsed now e False c = (r, c2)" by (cases "markEntryAsUsed now e False c")
    from markEntryAsUsed_error[of now e False c] m have "r \<noteq> Inl NotFound" by auto
    with True h c1 e m ne show ?thesis by (cases r) (simp_all add: get_def)
  qed
qed

lemma get_NotFound_state:
  "fst (get now k c) = Inl NotFound \<Longrightarrow> fst (has now k c) = False \<and> snd (get now k c) = snd (has now k c)"
proof -
  assume a: "fst (get now k c) = Inl NotFound"
  with get_NotFound_iff[of now k c] has_false_iff[of now k c] have "fst (has now k c) = False" by simp
  then show ?thesis by (cases "has now k c") (simp add: get_def)
qed

lemma get_wf_chain:
  assumes "wf_chain c as" "map_of (keymap c) k = Some e" "\<not> expired now k c"
  shows "fst (get now k c) = Inr (value' (heap c ! e))"
    and "wf_chain (snd (get now k c)) (remove1 e as @ [e])"
    and "key (heap (snd (get now k c)) ! b) = key (heap c ! b)"
    and "value' (heap (snd (get now k c)) ! b) = value' (heap c ! b)"
    and "lifetime (snd (get now k c)) = lifetime c"
    and "head (snd (get now k c)) = Some e"
    and "keymap (snd (get now k c)) = keymap c"
    and "size' (snd (get now k c)) = size' c"
proof -
  from wf_chain_lookup[OF assms(1)] assms(2) have e: "e \<in> set as" by simp
  obtain r c2 where m: "markEntryAsUsed now e False c = (r, c2)" by (cases "markEntryAsUsed now e False c")
  from markEntryAsUsed_wf_chain[OF assms(1) e, of now False] m
  have r: "r = Inr ()" and c2: "wf_chain c2 (remove1 e as @ [e])" "lifetime c2 = lifetime c"
    "head c2 = Some e" and kv: "\<And>b. key (heap c2 ! b) = key (heap c ! b)"
    "\<And>b. value' (heap c2 ! b) = value' (heap c ! b)"
    by simp_all
  from markEntryAsUsed_size(1)[of now e False c] m have sz: "size' c2 = size' c" by simp
  have km: "keymap c2 = keymap c"
    using m by (auto simp add: markEntryAsUsed_def Let_def split: option.splits if_splits)
  from has_wf_chain(1)[OF assms(1,2,3)] assms(2) m r
  have g: "get now k c = (Inr (value' (heap c2 ! e)), c2)" by (simp add: get_def)
  with c2 kv sz km show "fst (get now k c) = Inr (value' (heap c ! e))"
    "wf_chain (snd (get now k c)) (remove1 e as @ [e])"
    "key (heap (snd (get now k c)) ! b) = key (heap c ! b)"
    "value' (heap (snd (get now k c)) ! b) = value' (heap c ! b)"
    "lifetime (snd (get now k c)) = lifetime c"
    "head (snd (get now k c)) = Some e"
    "keymap (snd (get now k c)) = keymap c"
    "size' (snd (get now k c)) = size' c"
    by simp_all
qed


lemma has_present:
  assumes "map_of (keymap c) k = Some e" "lifetime c \<noteq> 0"
    "\<bar>now - CREATED_AT (heap c ! e)\<bar> < 9007199254740992"
  shows "has now k c = (if 60000 * lifetime c < now - CREATED_AT (heap c ! e)
                        then (False, snd (delete' k c)) else (True, c))"
    and "expired now k c \<longleftrightarrow> 60000 * lifetime c < now - CREATED_AT (heap c ! e)"
  using assms by (simp_all add: has_def expired_def ageInMinutes_gt_iff)

lemma delete'_lookup:
  "map_of (keymap c) k = Some e \<Longrightarrow> key (heap c ! e) = k \<Longrightarrow>
   map_of (keymap (snd (delete' k c))) k = None"
  by (simp add: delete'_def Let_def delete_conv split: option.splits)

lemma filter_other_keys:
  assumes "wf_chain c as" "e \<in> set as"
  shows "map (\<lambda>a. (key (heap c ! a), value' (heap c ! a))) (remove1 e as)
       = filter (\<lambda>p. fst p \<noteq> key (heap c ! e)) (map (\<lambda>a. (key (heap c ! a), value' (heap c ! a))) as)"
proof -
  from assms(1) have d: "distinct as" by (simp add: wf_chain_def)
  have "filter (\<lambda>a. key (heap c ! a) \<noteq> key (heap c ! e)) as = filter (\<lambda>a. a \<noteq> e) as"
    using wf_chain_keys_inj[OF assms(1) _ assms(2)] by (intro filter_cong) auto
  also have "\<dots> = remove1 e as"
    using d by (simp add: distinct_remove1_removeAll removeAll_filter_not_eq) metis
  finally show ?thesis by (simp add: filter_map comp_def)
qed

lemma m_set_PREVIOUS_fields [simp]:
  "m_size (m_set_PREVIOUS a p c) = m_size c" "m_limit (m_set_PREVIOUS a p c) = m_limit c"
  "m_tail (m_set_PREVIOUS a p c) = m_tail c" "m_newest (m_set_PREVIOUS a p c) = m_newest c"
  "m_keymap (m_set_PREVIOUS a p c) = m_keymap c"
  "m_value (m_heap (m_set_PREVIOUS a p c) ! b) = m_value (m_heap c ! b)"
  by (simp_all add: m_set_PREVIOUS_def nth_update_field[where g="\<lambda>e. e\<lparr>m_PREVIOUS := p\<rparr>"])

lemma m_set_NEXT_fields [simp]:
  "m_size (m_set_NEXT a p c) = m_size c" "m_limit (m_set_NEXT a p c) = m_limit c"
  "m_tail (m_set_NEXT a p c) = m_tail c" "m_newest (m_set_NEXT a p c) = m_newest c"
  "m_keymap (m_set_NEXT a p c) = m_keymap c"
  "m_value (m_heap (m_set_NEXT a p c) ! b) = m_value (m_heap c ! b)"
  by (simp_all add: m_set_NEXT_def nth_update_field[where g="\<lambda>e. e\<lparr>m_NEXT := p\<rparr>"])







lemma set'_new_wf_chain:
  assumes "wf_chain c as" "map_of (keymap c) k = None"
  shows "fst (set' now k v c) = Inr ()"
    and "wf_chain (snd (set' now k v c))
           (if limit c < size' c + 1 then tl (as @ [length (heap c)]) else as @ [length (heap c)])"
    and "key (heap (snd (set' now k v c)) ! length (heap c)) = k"
    and "value' (heap (snd (set' now k v c)) ! length (heap c)) = v"
    and "CREATED_AT (heap (snd (set' now k v c)) ! length (heap c)) = now"
    and "lifetime (snd (set' now k v c)) = lifetime c"
    and "length (heap c) < length (heap (snd (set' now k v c)))"
proof -
  let ?e = "length (heap c)"
  obtain r c1 where i: "insertEntry now k v c = (r, c1)" by (cases "insertEntry now k v c")
  note ie = insertEntry_wf_chain[OF assms, where now=now and v=v]
  from ie(1) i have r: "r = Inr ()" by simp
  from ie(2,3,6,7) i have c1: "wf_chain c1 (as @ [?e])" "lifetime c1 = lifetime c"
    "key (heap c1 ! ?e) = k" "value' (heap c1 ! ?e) = v" "length (heap c1) = Suc ?e"
    by (simp_all add: new_Entry_def)
  from insertEntry_size[of now k v c] insertEntry_limit[of now k v c] i r
  have sl: "size' c1 = size' c + 1" "limit c1 = limit c" by simp_all
  from set'_new_stamp[OF assms(2), of now v]
  show "CREATED_AT (heap (snd (set' now k v c)) ! length (heap c)) = now"
    "length (heap c) < length (heap (snd (set' now k v c)))" by simp_all
  have main: "fst (set' now k v c) = Inr () \<and>
      wf_chain (snd (set' now k v c)) (if limit c < size' c + 1 then tl (as @ [?e]) else as @ [?e]) \<and>
      key (heap (snd (set' now k v c)) ! ?e) = k \<and> value' (heap (snd (set' now k v c)) ! ?e) = v \<and>
      lifetime (snd (set' now k v c)) = lifetime c"
  proof (cases "limit c < size' c + 1")
    case False
    with assms(2) i r sl c1 show ?thesis by (simp add: set'_def)
  next
    case True
    obtain a bs where ab: "as @ [?e] = a # bs" by (cases "as @ [?e]") auto
    with c1 have w: "wf_chain c1 (a # bs)" by simp
    obtain r2 c2 where rm: "removeLRUItem c1 = (r2, c2)" by (cases "removeLRUItem c1")
    from removeLRUItem_wf_chain[OF w] rm
    have "r2 = Inr (Some (key (heap c1 ! a), value' (heap c1 ! a)))" "wf_chain c2 bs"
      "\<And>b. key (heap c2 ! b) = key (heap c1 ! b)" "\<And>b. value' (heap c2 ! b) = value' (heap c1 ! b)"
      "lifetime c2 = lifetime c1"
      by simp_all
    with True assms(2) i r sl c1 rm ab show ?thesis by (simp add: set'_def)
  qed
  then show "fst (set' now k v c) = Inr ()"
    "wf_chain (snd (set' now k v c))
       (if limit c < size' c + 1 then tl (as @ [length (heap c)]) else as @ [length (heap c)])"
    "key (heap (snd (set' now k v c)) ! length (heap c)) = k"
    "value' (heap (snd (set' now k v c)) ! length (heap c)) = v"
    "lifetime (snd (set' now k v c)) = lifetime c"
    by simp_all
qed

lemma set'_existing_wf_chain:
  assumes "wf_chain c as" "map_of (keymap c) k = Some e"
  shows "fst (set' now k v c) = Inr ()"
    and "wf_chain (snd (set' now k v c)) (remove1 e as @ [e])"
    and "value' (heap (snd (set' now k v c)) ! e) = v"
proof -
  from wf_chain_lookup[OF assms(1)] assms(2) have e: "e \<in> set as" by simp
  from assms(1) e have eb: "e < length (heap c)" by (auto simp: wf_chain_def dest: linked_bounds)
  from assms(1) have w: "wf_chain (set_value e v c) as" by (simp add: set_value_wf_chain)
  from markEntryAsUsed_wf_chain[OF w e, of now True] assms(2) eb
  show "fst (set' now k v c) = Inr ()" "wf_chain (snd (set' now k v c)) (remove1 e as @ [e])"
    "value' (heap (snd (set' now k v c)) ! e) = v"
    by (simp_all add: set'_def)
qed

lemma set'_well_formed: "well_formed c \<Longrightarrow> fst (set' now k v c) = Inr () \<and> well_formed (snd (set' now k v c))"
proof -
  assume "well_formed c"
  then obtain as where as: "wf_chain c as" by (auto simp: well_formed_iff)
  show ?thesis
  proof (cases "map_of (keymap c) k")
    case None
    from set'_new_wf_chain(1,2)[OF as None, of now v] show ?thesis by (auto simp: well_formed_iff)
  next
    case (Some e)
    from set'_existing_wf_chain(1,2)[OF as Some, of now v] show ?thesis by (auto simp: well_formed_iff)
  qed
qed

text \<open>
  C1, amended. The entry of a key \<open>k\<close> is built at time \<open>t0\<close>: by \<open>set\<close> of \<open>k\<close> as a new
  key, or by \<open>assign\<close> (whether it returns or raises Overflow), or by the constructor
  loading its entries (of the pairs that are loaded, the last with the key \<open>k\<close> is the
  \<open>j\<close>-th, and \<open>t0\<close> is the reading of the clock when its entry is built). Any history
  of calls follows, whatever they return or throw, on \<open>k\<close> or on other keys, with no
  \<open>set\<close> of \<open>k\<close> among them, and after it the key map still holds that entry for \<open>k\<close>.
  The lifetime is positive, and \<open>now\<close> is less than \<open>2^53\<close> milliseconds from \<open>t0\<close>.
  Then \<open>has\<close> at time \<open>now\<close> returns false exactly when more than lifetime minutes have
  passed since \<open>t0\<close>, whatever \<open>get\<close> calls came between. In that case it removes the
  entry of \<open>k\<close>: the key is no longer in the key map, \<open>find\<close> gives nothing for it, the
  size is one less, and in a well-formed cache the entry is gone from the chain (the
  other entries keep their order). Otherwise \<open>has\<close> returns true and leaves the cache as
  it is.
\<close>

theorem has_expires_by_creation_time:
  fixes c0 c1 :: "('k, 'v) LRUCache"
  assumes "(map_of (keymap c0) k = None \<and> c1 = snd (set' t0 k v c0))
     \<or> (c1 = snd (assign clock es c0) \<and> last_with_key k (loaded c0 es) j \<and> clock j = t0)
     \<or> (new_LRUCache clock L arg2 arg3 = Inr c1 \<and> given_entries arg2 arg3 = Some es
          \<and> last_with_key k es j \<and> clock j = t0)"
    and "\<forall>y \<in> set calls. \<forall>t w. y \<noteq> Set t k w"
    and "map_of (keymap c1) k = Some e"
    and "map_of (keymap (after_calls calls c1)) k = Some e"
    and "0 < lifetime (after_calls calls c1)"
    and "\<bar>now - t0\<bar> < 9007199254740992"
  shows "(fst (has now k (after_calls calls c1)) = False
            \<longleftrightarrow> 60000 * lifetime (after_calls calls c1) < now - t0)
     \<and> (60000 * lifetime (after_calls calls c1) < now - t0 \<longrightarrow>
          map_of (keymap (snd (has now k (after_calls calls c1)))) k = None
          \<and> find' k (snd (has now k (after_calls calls c1))) = None
          \<and> size' (snd (has now k (after_calls calls c1))) = size' (after_calls calls c1) - 1)
     \<and> (60000 * lifetime (after_calls calls c1) < now - t0
          \<and> well_formed (after_calls calls c1) \<and> entries (after_calls calls c1) = Some xs \<longrightarrow>
          k \<in> fst ` set xs
          \<and> well_formed (snd (has now k (after_calls calls c1)))
          \<and> entries (snd (has now k (after_calls calls c1))) = Some (filter (\<lambda>p. fst p \<noteq> k) xs))
     \<and> (\<not> 60000 * lifetime (after_calls calls c1) < now - t0 \<longrightarrow>
          has now k (after_calls calls c1) = (True, after_calls calls c1))"
proof -
  define c where "c = after_calls calls c1"
  have b: "e < length (heap c1) \<and> key (heap c1 ! e) = k \<and> CREATED_AT (heap c1 ! e) = t0"
    using assms(1)
  proof (elim disjE conjE)
    assume n: "map_of (keymap c0) k = None" and c1: "c1 = snd (set' t0 k v c0)"
    from assms(3) have "map_of (keymap (snd (set' t0 k v c0))) k = Some e" by (simp only: c1)
    from set'_new_entry[OF n this] show ?thesis unfolding c1 by blast
  next
    assume c1: "c1 = snd (assign clock es c0)"
      and lw: "last_with_key k (loaded c0 es) j" and cl: "clock j = t0"
    from assign_entry_loaded[OF lw, of clock] assms(3) have "e = length (heap c0) + j" by (simp add: c1)
    with assign_entry_loaded[OF lw, of clock] cl show ?thesis unfolding c1 by blast
  next
    assume new: "new_LRUCache clock L arg2 arg3 = Inr c1" and g: "given_entries arg2 arg3 = Some es"
      and lw: "last_with_key k es j" and cl: "clock j = t0"
    from new_LRUCache_entry[OF new g lw] assms(3) have "e = j" by simp
    with new_LRUCache_entry[OF new g lw] cl show ?thesis by blast
  qed
  from b ks_after_calls[of c1 calls] kk_after_calls[of c1 calls]
  have st: "CREATED_AT (heap c ! e) = t0" and ke: "key (heap c ! e) = k"
    by (simp_all add: keeps_stamps_def keeps_keys_def c_def)
  from assms(4,5) have m: "map_of (keymap c) k = Some e" and l: "lifetime c \<noteq> 0"
    by (simp_all add: c_def)
  from assms(6) st have near: "\<bar>now - CREATED_AT (heap c ! e)\<bar> < 9007199254740992" by simp
  note hp = has_present[OF m l near, unfolded st]
  have main: "(fst (has now k c) = False \<longleftrightarrow> 60000 * lifetime c < now - t0)
     \<and> (60000 * lifetime c < now - t0 \<longrightarrow>
          map_of (keymap (snd (has now k c))) k = None
          \<and> find' k (snd (has now k c)) = None
          \<and> size' (snd (has now k c)) = size' c - 1)
     \<and> (60000 * lifetime c < now - t0 \<and> well_formed c \<and> entries c = Some xs \<longrightarrow>
          k \<in> fst ` set xs
          \<and> well_formed (snd (has now k c))
          \<and> entries (snd (has now k c)) = Some (filter (\<lambda>p. fst p \<noteq> k) xs))
     \<and> (\<not> 60000 * lifetime c < now - t0 \<longrightarrow> has now k c = (True, c))"
  proof (cases "60000 * lifetime c < now - t0")
    case False
    with hp(1) show ?thesis by simp
  next
    case True
    with hp have h: "has now k c = (False, snd (delete' k c))" and ex: "expired now k c" by simp_all
    from delete'_lookup[OF m ke] h have gone: "map_of (keymap (snd (has now k c))) k = None" by simp
    then have nf: "find' k (snd (has now k c)) = None" by (simp add: find'_def)
    from delete'_size[of k c] m h have sz: "size' (snd (has now k c)) = size' c - 1" by simp
    have w: "k \<in> fst ` set xs \<and> well_formed (snd (has now k c))
          \<and> entries (snd (has now k c)) = Some (filter (\<lambda>p. fst p \<noteq> k) xs)"
      if wf: "well_formed c" and xs: "entries c = Some xs"
    proof -
      from wf obtain as where as: "wf_chain c as" by (auto simp: well_formed_iff)
      let ?f = "\<lambda>a. (key (heap c ! a), value' (heap c ! a))"
      from wf_chain_lookup[OF as] m have ea: "e \<in> set as" by simp
      from has_wf_chain(2)[OF as m ex] have w': "wf_chain (snd (has now k c)) (remove1 e as)" by blast
      note dl = delete'_wf_chain[OF as m]
      from entries_wf_chain[OF as] xs have es: "xs = map ?f as" by simp
      from entries_wf_chain[OF w'] dl(3,4) h
      have "entries (snd (has now k c)) = Some (map ?f (remove1 e as))" by simp
      with filter_other_keys[OF as ea] ke es
      have en: "entries (snd (has now k c)) = Some (filter (\<lambda>p. fst p \<noteq> k) xs)" by simp
      from ea es ke have "k \<in> fst ` set xs" by force
      with en w' show ?thesis by (auto simp: well_formed_iff)
    qed
    from True h gone nf sz w show ?thesis by simp
  qed
  then show ?thesis unfolding c_def .
qed

theorem has_expires_by_creation_time_witness:
  "fst (has 70000 ''a''
         (after_calls [Get 50000 ''a'', Set 55000 ''c'' 3, Has 56000 ''b'', Delete ''b'', Find ''a'']
            (snd (assign (\<lambda>j. 1000 * int j) [(''a'', 1::int), (''b'', 2)] (fresh 1 3))))) = False
   \<and> entries (snd (has 70000 ''a''
         (after_calls [Get 50000 ''a'', Set 55000 ''c'' 3, Has 56000 ''b'', Delete ''b'', Find ''a'']
            (snd (assign (\<lambda>j. 1000 * int j) [(''a'', 1::int), (''b'', 2)] (fresh 1 3))))))
       = Some [(''c'', 3)]
   \<and> has 59000 ''a''
         (after_calls [Get 50000 ''a'', Set 55000 ''c'' 3, Has 56000 ''b'', Delete ''b'', Find ''a'']
            (snd (assign (\<lambda>j. 1000 * int j) [(''a'', 1::int), (''b'', 2)] (fresh 1 3))))
       = (True,
          after_calls [Get 50000 ''a'', Set 55000 ''c'' 3, Has 56000 ''b'', Delete ''b'', Find ''a'']
            (snd (assign (\<lambda>j. 1000 * int j) [(''a'', 1::int), (''b'', 2)] (fresh 1 3))))"
proof -
  define c0 where "c0 = (fresh 1 3 :: (string, int) LRUCache)"
  define c1 where "c1 = snd (assign (\<lambda>j. 1000 * int j) [(''a'', 1::int), (''b'', 2)] c0)"
  define calls where "calls = [Get 50000 ''a'', Set 55000 ''c'' (3::int), Has 56000 ''b'', Delete ''b'', Find ''a'']"
  have lw: "last_with_key ''a'' (loaded c0 [(''a'', 1::int), (''b'', 2)]) 0"
    by (simp add: last_with_key_def loaded_eq c0_def fresh_def)
  have built: "(map_of (keymap c0) ''a'' = None \<and> c1 = snd (set' 0 ''a'' 0 c0))
     \<or> (c1 = snd (assign (\<lambda>j. 1000 * int j) [(''a'', 1::int), (''b'', 2)] c0)
          \<and> last_with_key ''a'' (loaded c0 [(''a'', 1::int), (''b'', 2)]) 0
          \<and> (\<lambda>j. 1000 * int j) 0 = 0)
     \<or> (new_LRUCache (\<lambda>j. 1000 * int j) 0 (Number 0) None = Inr c1
          \<and> given_entries (Number 0) None = Some [(''a'', 1::int), (''b'', 2)]
          \<and> last_with_key ''a'' [(''a'', 1::int), (''b'', 2)] 0 \<and> (\<lambda>j. 1000 * int j) 0 = 0)"
    using lw by (simp add: c1_def)
  have ns: "\<forall>y \<in> set calls. \<forall>t w. y \<noteq> Set t ''a'' w" by (simp add: calls_def)
  have f: "map_of (keymap c1) ''a'' = Some 0" "map_of (keymap (after_calls calls c1)) ''a'' = Some 0"
    "0 < lifetime (after_calls calls c1)" "lifetime (after_calls calls c1) = 1"
    "well_formed (after_calls calls c1)"
    "entries (after_calls calls c1) = Some [(''a'', 1), (''c'', 3)]"
    unfolding c1_def c0_def calls_def by code_simp+
  have n: "\<bar>70000 - 0\<bar> < (9007199254740992::int)" "\<bar>59000 - 0\<bar> < (9007199254740992::int)" by simp_all
  from has_expires_by_creation_time[OF built ns f(1,2,3) n(1), of "[(''a'', 1), (''c'', 3)]"]
    has_expires_by_creation_time[OF built ns f(1,2,3) n(2), of "[]"] f(4,5,6)
  have "fst (has 70000 ''a'' (after_calls calls c1)) = False
     \<and> entries (snd (has 70000 ''a'' (after_calls calls c1))) = Some [(''c'', 3)]
     \<and> has 59000 ''a'' (after_calls calls c1) = (True, after_calls calls c1)"
    by simp
  then show ?thesis unfolding c1_def c0_def calls_def .
qed

text \<open>
  C1, as stated, fails: lifetime 1 minute, \<open>a\<close> set at time 0 and read by \<open>get\<close> at
  50000 ms. At 70000 ms only 20000 ms have passed since that last touch, which is
  less than the lifetime, yet \<open>has\<close> returns false and removes the entry: the age is
  measured from the creation of the entry. It fails also for readings of the clock
  \<open>2^53\<close> ms or more apart, where the age is rounded: with a lifetime of 287999999999
  minutes, \<open>a\<close> set at -8640000000000000 and \<open>has\<close> called at 8639999999940001, one
  millisecond more than the lifetime has passed, yet \<open>has\<close> returns true and leaves the
  cache as it is.
\<close>

theorem has_ignores_get_touch:
  "fst (set' 0 ''a'' (1::int) (fresh 1 3)) = Inr ()
   \<and> fst (get 50000 ''a'' (snd (set' 0 ''a'' (1::int) (fresh 1 3)))) = Inr 1
   \<and> \<not> (of_int (lifetime (fresh 1 3 :: (string, int) LRUCache)) < (of_int (70000 - 50000) / 60000 :: rat))
   \<and> fst (has 70000 ''a'' (snd (get 50000 ''a'' (snd (set' 0 ''a'' (1::int) (fresh 1 3)))))) = False
   \<and> map_of (keymap (snd (has 70000 ''a''
        (snd (get 50000 ''a'' (snd (set' 0 ''a'' (1::int) (fresh 1 3)))))))) ''a'' = None
   \<and> fst (set' (- 8640000000000000) ''a'' (1::int) (fresh 287999999999 3)) = Inr ()
   \<and> 60000 * lifetime (fresh 287999999999 3 :: (string, int) LRUCache)
        < 8639999999940001 - (- 8640000000000000)
   \<and> has 8639999999940001 ''a'' (snd (set' (- 8640000000000000) ''a'' (1::int) (fresh 287999999999 3)))
        = (True, snd (set' (- 8640000000000000) ''a'' (1::int) (fresh 287999999999 3)))"
  by code_simp

section \<open>Bulk load of a serialised cache\<close>

lemma assign_step_old:
  assumes "a < length (heap c)" "\<forall>la. l = Some la \<longrightarrow> la < length (heap c)"
  shows "key (heap (assign_step now x l c) ! a) = key (heap c ! a)"
    and "value' (heap (assign_step now x l c) ! a) = value' (heap c ! a)"
    and "NEXT (heap (assign_step now x l c) ! a) = NEXT (heap c ! a)"
    and "PREVIOUS (heap (assign_step now x l c) ! a)
           = (if l = Some a then Some (length (heap c)) else PREVIOUS (heap c ! a))"
  using assms by (cases l; auto simp add: assign_step_def Let_def nth_append)+

lemma assign_step_entry:
  assumes "\<forall>la. l = Some la \<longrightarrow> la < length (heap c)"
  shows "heap (assign_step now x l c) ! length (heap c) = (new_Entry now (fst x) (snd x))\<lparr>NEXT := l\<rparr>"
  using assms by (cases l) (auto simp add: assign_step_def Let_def set_NEXT_def set_PREVIOUS_def new_Entry_def)

lemma assign_step_tail:
  "tail (assign_step now x l c) = (if l = None then Some (length (heap c)) else tail c)"
  by (cases l) (simp_all add: assign_step_def Let_def)

lemma assign_step_building:
  assumes "building c n0 l ys"
  shows "building (assign_step now x l c) n0 (Some (length (heap c))) (ys @ [x])"
proof -
  let ?e = "length (heap c)"
  let ?c3 = "assign_step now x l c"
  let ?built = "[n0 ..< ?e]"
  from assms have n0: "n0 \<le> ?e" and lk: "linked (heap c) None ?built None"
    and l: "l = (if n0 = ?e then None else Some (?e - 1))"
    and tl: "n0 < ?e \<longrightarrow> tail c = Some n0"
    and ys: "map (\<lambda>a. (key (heap c ! a), value' (heap c ! a))) ?built = ys"
    by (simp_all add: building_def)
  have lb: "\<forall>la. l = Some la \<longrightarrow> la < ?e" using l n0 by auto
  have old: "key (heap ?c3 ! a) = key (heap c ! a)" "value' (heap ?c3 ! a) = value' (heap c ! a)"
    "NEXT (heap ?c3 ! a) = NEXT (heap c ! a)"
    "PREVIOUS (heap ?c3 ! a) = (if l = Some a then Some ?e else PREVIOUS (heap c ! a))"
    if "a < ?e" for a
    using assign_step_old[OF that lb] by simp_all
  have ent: "heap ?c3 ! ?e = (new_Entry now (fst x) (snd x))\<lparr>NEXT := l\<rparr>"
    by (rule assign_step_entry[OF lb])
  have lastb: "?built \<noteq> [] \<Longrightarrow> last ?built = ?e - 1" by (simp add: last_conv_nth)
  have l1: "linked (heap ?c3) None ?built (Some ?e)"
  proof (rule linked_relink[OF lk])
    show "distinct ?built" by simp
    show "\<forall>a\<in>set ?built. a < length (heap ?c3)" by (auto simp add: less_Suc_eq)
    show "\<forall>a\<in>set ?built. a \<noteq> hd ?built \<longrightarrow> NEXT (heap ?c3 ! a) = NEXT (heap c ! a)"
      using old(3) by simp
    show "\<forall>a\<in>set ?built. a \<noteq> last ?built \<longrightarrow> PREVIOUS (heap ?c3 ! a) = PREVIOUS (heap c ! a)"
      using old(4) l lastb by (auto split: if_splits)
    show "?built \<noteq> [] \<longrightarrow> NEXT (heap ?c3 ! hd ?built) = None \<and> PREVIOUS (heap ?c3 ! last ?built) = Some ?e"
      using linked_ends[OF lk] old(3)[of "hd ?built"] old(4)[of "last ?built"] l lastb n0
      by (auto simp add: hd_upt)
  qed
  have b3: "[n0 ..< length (heap ?c3)] = ?built @ [?e]" using n0 by simp
  have "linked (heap ?c3) None (?built @ [?e]) None"
    using l1 ent l lastb n0 by (auto simp add: linked_snoc new_Entry_def)
  moreover have "n0 < length (heap ?c3) \<longrightarrow> tail ?c3 = Some n0"
    using l tl n0 by (auto simp add: assign_step_tail)
  moreover have "map (\<lambda>a. (key (heap ?c3 ! a), value' (heap ?c3 ! a))) (?built @ [?e]) = ys @ [x]"
    using ys old(1,2) ent by (auto simp add: new_Entry_def)
  ultimately show ?thesis using n0 unfolding building_def b3 by simp
qed

lemma assign_step_keyed:
  assumes "building c n0 l ys" "keyed c n0" "fst x \<notin> fst ` set ys"
  shows "keyed (assign_step now x l c) n0"
proof -
  let ?e = "length (heap c)"
  let ?c3 = "assign_step now x l c"
  from assms(1) have n0: "n0 \<le> ?e"
    and l: "l = (if n0 = ?e then None else Some (?e - 1))"
    and ys: "map (\<lambda>a. (key (heap c ! a), value' (heap c ! a))) [n0 ..< ?e] = ys"
    by (simp_all add: building_def)
  from assms(2) have dk: "distinct (map fst (keymap c))"
    and km: "set (keymap c) = set (map (\<lambda>a. (key (heap c ! a), a)) [n0 ..< ?e])"
    by (simp_all add: keyed_def)
  have lb: "\<forall>la. l = Some la \<longrightarrow> la < ?e" using l n0 by auto
  have "fst ` set (keymap c) = fst ` set ys" unfolding km ys[symmetric] by force
  with assms(3) have nk: "fst x \<notin> fst ` set (keymap c)" by simp
  have "key (heap ?c3 ! a) = key (heap c ! a)" if "a < ?e" for a
    using assign_step_old(1)[OF that lb] .
  moreover have "key (heap ?c3 ! ?e) = fst x" using assign_step_entry[OF lb] by (simp add: new_Entry_def)
  ultimately show ?thesis
    using n0 dk km nk by (auto simp add: keyed_def update_fresh)
qed

lemma assign_loop_building:
  assumes "building c n0 l ys" "b = None \<or> (\<exists>n. b = Some n \<and> int (length xs) \<le> n)"
  shows "\<exists>l'. fst (assign_loop clock i xs l b c) = Inr l'
     \<and> building (snd (assign_loop clock i xs l b c)) n0 l' (ys @ xs)
     \<and> length (heap (snd (assign_loop clock i xs l b c))) = length (heap c) + length xs
     \<and> (keyed c n0 \<and> distinct (map fst (ys @ xs)) \<longrightarrow> keyed (snd (assign_loop clock i xs l b c)) n0)"
  using assms
proof (induction xs arbitrary: i l b c ys)
  case Nil
  then show ?case by simp
next
  case (Cons x xs)
  let ?c3 = "assign_step (clock i) x l c"
  from Cons.prems(2) have nb: "b \<noteq> Some 0"
    and b': "map_option (\<lambda>n. n - 1) b = None \<or> (\<exists>n. map_option (\<lambda>n. n - 1) b = Some n \<and> int (length xs) \<le> n)"
    by auto
  note st = assign_step_building[OF Cons.prems(1), of "clock i" x]
  from Cons.IH[OF st b', of "Suc i"] obtain l' where
    r: "fst (assign_loop clock (Suc i) xs (Some (length (heap c))) (map_option (\<lambda>n. n - 1) b) ?c3) = Inr l'"
    and bl: "building (snd (assign_loop clock (Suc i) xs (Some (length (heap c))) (map_option (\<lambda>n. n - 1) b) ?c3)) n0 l' ((ys @ [x]) @ xs)"
    and len: "length (heap (snd (assign_loop clock (Suc i) xs (Some (length (heap c))) (map_option (\<lambda>n. n - 1) b) ?c3))) = length (heap ?c3) + length xs"
    and ky: "keyed ?c3 n0 \<and> distinct (map fst ((ys @ [x]) @ xs)) \<longrightarrow>
        keyed (snd (assign_loop clock (Suc i) xs (Some (length (heap c))) (map_option (\<lambda>n. n - 1) b) ?c3)) n0"
    by blast
  have "keyed ?c3 n0" if "keyed c n0" "distinct (map fst (ys @ x # xs))"
    using assign_step_keyed[OF Cons.prems(1) that(1), of x "clock i"] that(2) by auto
  with r bl len ky nb show ?case by auto
qed

lemma building_wf_chain:
  assumes "building c1 n0 l ys" "keyed c1 n0" "n0 < length (heap c1)"
  shows "wf_chain (c1\<lparr>head := l, size' := int (length (keymap c1))\<rparr>) [n0 ..< length (heap c1)]"
proof -
  from assms(1) have lk: "linked (heap c1) None [n0 ..< length (heap c1)] None"
    and l: "l = (if n0 = length (heap c1) then None else Some (length (heap c1) - 1))"
    and tl: "n0 < length (heap c1) \<longrightarrow> tail c1 = Some n0"
    by (simp_all add: building_def)
  from assms(2) have dk: "distinct (map fst (keymap c1))"
    and km: "set (keymap c1) = set (map (\<lambda>a. (key (heap c1 ! a), a)) [n0 ..< length (heap c1)])"
    by (simp_all add: keyed_def)
  have "length (keymap c1) = card (set (keymap c1))"
    using dk distinct_card[of "keymap c1"] by (simp add: distinct_map)
  also have "\<dots> = card ((\<lambda>a. (key (heap c1 ! a), a)) ` {n0 ..< length (heap c1)})"
    by (simp add: km)
  also have "\<dots> = length (heap c1) - n0"
    by (subst card_image) (auto simp add: inj_on_def)
  finally have len: "length (keymap c1) = length (heap c1) - n0" .
  show ?thesis
    using lk l tl dk km assms(3) len
    by (auto simp add: wf_chain_def last_conv_nth hd_upt)
qed

lemma assign_succeeds:
  assumes "limit c = 0 \<or> int (length es) \<le> limit c" "es = [] \<longrightarrow> tail c = None"
  shows "fst (assign clock es c) = Inr ()"
    and "entries (snd (assign clock es c)) = Some es"
    and "distinct (map fst es) \<Longrightarrow> well_formed (snd (assign clock es c))"
    and "distinct (map fst es) \<Longrightarrow> size' (snd (assign clock es c)) = int (length es)"
proof -
  define b where "b = (if limit c = 0 then None else Some (limit c))"
  let ?c0 = "c\<lparr>keymap := []\<rparr>"
  let ?n0 = "length (heap c)"
  let ?r = "assign_loop clock 0 es None b ?c0"
  have b0: "building ?c0 ?n0 None []" by (simp add: building_def)
  have k0: "keyed ?c0 ?n0" by (simp add: keyed_def)
  have bb: "b = None \<or> (\<exists>n. b = Some n \<and> int (length es) \<le> n)" using assms(1) by (auto simp: b_def)
  from assign_loop_building[OF b0 bb, of clock 0] obtain l' where
    r: "fst ?r = Inr l'" and bl: "building (snd ?r) ?n0 l' es"
    and len: "length (heap (snd ?r)) = ?n0 + length es"
    and ky: "keyed ?c0 ?n0 \<and> distinct (map fst es) \<longrightarrow> keyed (snd ?r) ?n0"
    by auto
  let ?c' = "(snd ?r)\<lparr>head := l', size' := int (length (keymap (snd ?r)))\<rparr>"
  from r have a: "assign clock es c = (Inr (), ?c')"
    by (cases ?r) (simp add: assign_def b_def[symmetric])
  then show "fst (assign clock es c) = Inr ()" by simp
  from bl have lk: "linked (heap (snd ?r)) None [?n0 ..< length (heap (snd ?r))] None"
    and tl: "?n0 < length (heap (snd ?r)) \<longrightarrow> tail (snd ?r) = Some ?n0"
    and ys: "map (\<lambda>a. (key (heap (snd ?r) ! a), value' (heap (snd ?r) ! a))) [?n0 ..< length (heap (snd ?r))] = es"
    by (simp_all add: building_def)
  have t0: "tail (snd ?r) = tail c" if "es = []" using that by simp
  have "chain ?c' = Some [?n0 ..< length (heap (snd ?r))]"
  proof (cases "es = []")
    case True
    with assms(2) t0 len show ?thesis by (simp add: chain_def)
  next
    case False
    with len tl have t: "tail (snd ?r) = Some ?n0" by simp
    from walk_linked[OF lk, of "length (heap (snd ?r))"] False len t
    show ?thesis by (simp add: chain_def hd_upt)
  qed
  with ys a show "entries (snd (assign clock es c)) = Some es" by (simp add: entries_def)
  show "well_formed (snd (assign clock es c))" "size' (snd (assign clock es c)) = int (length es)"
    if d: "distinct (map fst es)"
  proof -
    from ky k0 d have kd: "keyed (snd ?r) ?n0" by simp
    have wfc: "well_formed ?c' \<and> size' ?c' = int (length es)"
    proof (cases "es = []")
      case True
      with kd len have "keymap (snd ?r) = []" by (simp add: keyed_def)
      moreover from bl True len have "l' = None" by (simp add: building_def)
      ultimately have "wf_chain ?c' []" using True assms(2) t0 by (simp add: wf_chain_def)
      with True \<open>keymap (snd ?r) = []\<close> show ?thesis by (auto simp add: well_formed_iff)
    next
      case False
      with len have "?n0 < length (heap (snd ?r))" by simp
      from building_wf_chain[OF bl kd this]
      have w: "wf_chain ?c' [?n0 ..< length (heap (snd ?r))]" .
      then have "well_formed ?c'" unfolding well_formed_iff by (rule exI)
      moreover from w len have "size' ?c' = int (length es)" unfolding wf_chain_def by simp
      ultimately show ?thesis by simp
    qed
    from a have e: "snd (assign clock es c) = ?c'" by simp
    show "well_formed (snd (assign clock es c))" "size' (snd (assign clock es c)) = int (length es)"
      unfolding e using wfc by blast+
  qed
qed

section \<open>Operations on a well-formed cache\<close>

text \<open>
  \<open>removeLRUItem\<close> of class \<open>LRUCache\<close> on a cache of one entry returns the entry and
  leaves the cache without entries; on a cache without entries it returns \<open>undefined\<close>
  and changes nothing.
\<close>

lemma removeLRUItem_only_entry:
  assumes "wf_chain c [a]"
  shows "fst (removeLRUItem c) = Inr (Some (key (heap c ! a), value' (heap c ! a)))
     \<and> vacant (snd (removeLRUItem c)) \<and> well_formed (snd (removeLRUItem c))"
proof -
  from removeLRUItem_wf_chain(2)[OF assms] have w: "wf_chain (snd (removeLRUItem c)) []" .
  then have "well_formed (snd (removeLRUItem c))" unfolding well_formed_iff by blast
  with w removeLRUItem_wf_chain(1)[OF assms] show ?thesis by (simp add: wf_chain_Nil)
qed

lemma removeLRUItem_vacant: "vacant c \<Longrightarrow> removeLRUItem c = (Inr None, c)"
  by (simp add: removeLRUItem_def vacant_def)

text \<open>
  In a well-formed cache the keys met from the oldest end are the keys of the key map,
  each once, and their number is the size. Every operation leaves a well-formed cache
  well formed; \<open>assign\<close> does when the pairs given are not empty, have distinct keys
  and fit the limit.
\<close>

lemma well_formed_keys:
  assumes "well_formed c"
  shows "\<exists>ks. keys c = Some ks \<and> distinct ks \<and> set ks = fst ` set (keymap c)
           \<and> int (length ks) = size' c"
proof -
  from assms obtain as where as: "wf_chain c as" by (auto simp: well_formed_iff)
  have k: "keys c = Some (map (\<lambda>a. key (heap c ! a)) as)" by (simp add: keys_def wf_chain_chain[OF as])
  from as have d: "distinct as" and s: "set (keymap c) = set (map (\<lambda>a. (key (heap c ! a), a)) as)"
    and sz: "size' c = int (length as)" by (simp_all add: wf_chain_def)
  have dk: "distinct (map (\<lambda>a. key (heap c ! a)) as)"
    using wf_chain_keys_inj[OF as] d by (auto simp add: distinct_map inj_on_def)
  have "fst ` set (keymap c) = set (map (\<lambda>a. key (heap c ! a)) as)" unfolding s by force
  with k dk sz show ?thesis by simp
qed

lemma perform_well_formed:
  assumes "well_formed c"
    and "\<And>clock es. x = Assign clock es \<Longrightarrow>
           distinct (map fst es) \<and> es \<noteq> [] \<and> (limit c = 0 \<or> int (length es) \<le> limit c)"
  shows "well_formed (snd (perform x c))"
proof -
  from assms(1) obtain as where as: "wf_chain c as" by (auto simp: well_formed_iff)
  show ?thesis
  proof (cases x)
    case (Set now k v)
    with set'_well_formed[OF assms(1), of now k v] show ?thesis by (simp add: raised_def)
  next
    case (Has now k)
    show ?thesis
    proof (cases "map_of (keymap c) k")
      case None
      with Has assms(1) show ?thesis by (simp add: has_absent)
    next
      case (Some e)
      from has_wf_chain[OF as Some, of now] Has assms(1) show ?thesis
        by (cases "expired now k c") (auto simp: well_formed_iff)
    qed
  next
    case (Get now k)
    show ?thesis
    proof (cases "map_of (keymap c) k")
      case None
      with get_NotFound_iff[of now k c] have "fst (get now k c) = Inl NotFound" by simp
      from get_NotFound_state[OF this] None Get assms(1) show ?thesis by (simp add: raised_def has_absent)
    next
      case (Some e)
      show ?thesis
      proof (cases "expired now k c")
        case True
        with get_NotFound_iff[of now k c] have "fst (get now k c) = Inl NotFound" by simp
        from get_NotFound_state[OF this] has_wf_chain(2)[OF as Some True] Get show ?thesis
          by (auto simp add: raised_def well_formed_iff)
      next
        case False
        from get_wf_chain(2)[OF as Some False] Get show ?thesis by (auto simp add: raised_def well_formed_iff)
      qed
    qed
  next
    case (Find k)
    with assms(1) show ?thesis by simp
  next
    case (Delete k)
    show ?thesis
    proof (cases "map_of (keymap c) k")
      case None
      with Delete assms(1) show ?thesis by (simp add: delete'_def)
    next
      case (Some e)
      from delete'_wf_chain(2)[OF as Some] Delete show ?thesis by (auto simp: well_formed_iff)
    qed
  next
    case RemoveLRUItem
    show ?thesis
    proof (cases as)
      case Nil
      with as have "vacant c" by (simp add: wf_chain_Nil)
      with RemoveLRUItem assms(1) show ?thesis by (simp add: removeLRUItem_vacant raised_def)
    next
      case (Cons a as')
      from removeLRUItem_wf_chain(2)[OF as[unfolded Cons]] RemoveLRUItem show ?thesis
        by (auto simp: raised_def well_formed_iff)
    qed
  next
    case Clear
    have "vacant (clear c)" by (simp add: clear_def vacant_def)
    then have "wf_chain (clear c) []" by (simp add: wf_chain_Nil)
    with Clear show ?thesis by (auto simp: well_formed_iff)
  next
    case (Assign clock es)
    from assms(2)[OF Assign] have d: "distinct (map fst es)" and ne: "es \<noteq> []"
      and l: "limit c = 0 \<or> int (length es) \<le> limit c" by simp_all
    from ne have t: "es = [] \<longrightarrow> tail c = None" by simp
    from assign_succeeds(3)[OF l t d, of clock] Assign show ?thesis by (simp add: raised_def)
  qed
qed

section \<open>Round trip through toJSON\<close>

lemma toJSON_wf_chain:
  "wf_chain c as \<Longrightarrow> size' c \<le> 4294967295 \<Longrightarrow>
   toJSON f False c
     = Some (Inr (map (\<lambda>a. Some \<lparr>json_key = key (heap c ! a), json_value = value' (heap c ! a),
                                  json_created_at = None\<rparr>) as))"
  by (simp add: toJSON_def wf_chain_chain) (simp add: wf_chain_def)

text \<open>
  C8, amended. For a well-formed cache \<open>c\<close> of size at most \<open>m\<close> (an array length):
  \<open>toJSON()\<close> returns an array of records without empty slots; \<open>assign\<close> of the pairs
  \<open>[key, value]\<close> of these records, in the same order, on a cache newly built with limit
  \<open>m\<close> returns normally, and the cache it leaves is well formed and has the entries of
  \<open>c\<close> (keys and values, in the order from oldest to newest), the same \<open>toJSON()\<close> and
  the same size.
\<close>

theorem toJSON_assign_round_trip:
  fixes c :: "('k, 'v) LRUCache"
  assumes "well_formed c" and "size' c \<le> m" and "m \<le> 4294967295"
  shows "new_LRUCache clock0 L (Number m) None = Inr (fresh L m :: ('k, 'v) LRUCache)
     \<and> (\<exists>recs. toJSON toLocaleString False c = Some (Inr (map Some recs))
           \<and> fst (assign clock (map pair_of recs) (fresh L m)) = Inr ()
           \<and> well_formed (snd (assign clock (map pair_of recs) (fresh L m)))
           \<and> entries (snd (assign clock (map pair_of recs) (fresh L m))) = entries c
           \<and> toJSON toLocaleString False (snd (assign clock (map pair_of recs) (fresh L m)))
               = toJSON toLocaleString False c
           \<and> size' (snd (assign clock (map pair_of recs) (fresh L m))) = size' c)"
proof -
  from assms(1) obtain as where as: "wf_chain c as" by (auto simp: well_formed_iff)
  let ?mk = "\<lambda>a. \<lparr>json_key = key (heap c ! a), json_value = value' (heap c ! a), json_created_at = None\<rparr>"
  let ?recs = "map ?mk as"
  let ?es = "map (\<lambda>a. (key (heap c ! a), value' (heap c ! a))) as"
  let ?c' = "snd (assign clock ?es (fresh L m :: ('k, 'v) LRUCache))"
  from assms(2,3) have small: "size' c \<le> 4294967295" by simp
  have js: "toJSON toLocaleString False c = Some (Inr (map Some ?recs))"
    using toJSON_wf_chain[OF as small] by (simp add: comp_def)
  have pr: "map pair_of ?recs = ?es" by (simp add: pair_of_def comp_def)
  from as have sz: "size' c = int (length as)" by (simp add: wf_chain_def)
  have dk: "distinct (map fst ?es)"
    using wf_chain_keys_inj[OF as] as by (auto simp add: distinct_map comp_def inj_on_def wf_chain_def)
  have pre: "limit (fresh L m :: ('k, 'v) LRUCache) = 0 \<or> int (length ?es) \<le> limit (fresh L m :: ('k, 'v) LRUCache)"
    "?es = [] \<longrightarrow> tail (fresh L m :: ('k, 'v) LRUCache) = None"
    using assms(2) sz by (simp_all add: fresh_def)
  note a = assign_succeeds[OF pre, of clock]
  from a(3)[OF dk] obtain bs where bs: "wf_chain ?c' bs" by (auto simp: well_formed_iff)
  from a(4)[OF dk] sz small have small': "size' ?c' \<le> 4294967295" by simp
  from entries_wf_chain[OF bs] a(2) have eq: "map (\<lambda>a. (key (heap ?c' ! a), value' (heap ?c' ! a))) bs = ?es"
    by simp
  have "map (\<lambda>a. Some \<lparr>json_key = key (heap ?c' ! a), json_value = value' (heap ?c' ! a), json_created_at = None\<rparr>) bs
      = map (\<lambda>p. Some \<lparr>json_key = fst p, json_value = snd p, json_created_at = None\<rparr>)
          (map (\<lambda>a. (key (heap ?c' ! a), value' (heap ?c' ! a))) bs)"
    by (simp add: comp_def)
  also have "\<dots> = map Some ?recs" unfolding eq by (simp add: comp_def)
  finally have js': "toJSON toLocaleString False ?c' = toJSON toLocaleString False c"
    using toJSON_wf_chain[OF bs small', of toLocaleString] js by simp
  from js a(1) a(3)[OF dk] a(2) js' a(4)[OF dk] sz entries_wf_chain[OF as]
  have "toJSON toLocaleString False c = Some (Inr (map Some ?recs))
           \<and> fst (assign clock (map pair_of ?recs) (fresh L m)) = Inr ()
           \<and> well_formed (snd (assign clock (map pair_of ?recs) (fresh L m)))
           \<and> entries (snd (assign clock (map pair_of ?recs) (fresh L m))) = entries c
           \<and> toJSON toLocaleString False (snd (assign clock (map pair_of ?recs) (fresh L m)))
               = toJSON toLocaleString False c
           \<and> size' (snd (assign clock (map pair_of ?recs) (fresh L m))) = size' c"
    unfolding pr by simp
  then show ?thesis using new_LRUCache_plain[of clock0 L m] by blast
qed

text \<open>
  C8, as stated, fails: the array that \<open>toJSON\<close> returns holds records
  \<open>{key, value}\<close>, and \<open>assign\<close> reads the properties \<open>0\<close> and \<open>1\<close> of each element.
  Given that array as it is, \<open>assign\<close> builds an entry with key \<open>undefined\<close> and
  value \<open>undefined\<close>; given the pair \<open>[''a'', 1]\<close> it builds the entry of the original.
\<close>

theorem toJSON_records_are_not_pairs:
  "toJSON (\<lambda>t. []) False (snd (set' 0 ''a'' (1::int) (fresh 0 3)))
     = Some (Inr [Some \<lparr>json_key = ''a'', json_value = 1, json_created_at = None\<rparr>])
   \<and> entries (snd (set' 0 ''a'' (1::int) (fresh 0 3))) = Some [(''a'', 1)]
   \<and> fst (assign_elements (\<lambda>i. 0)
            [Object \<lparr>json_key = ''a'', json_value = 1::int, json_created_at = None\<rparr>] (fresh 0 3))
       = Inr ()
   \<and> entries (snd (assign_elements (\<lambda>i. 0)
            [Object \<lparr>json_key = ''a'', json_value = 1::int, json_created_at = None\<rparr>] (fresh 0 3)))
       = Some [(None, None)]
   \<and> entries (snd (assign_elements (\<lambda>i. 0) [Array2 ''a'' (1::int)] (fresh 0 3)))
       = Some [(Some ''a'', Some 1)]"
  by code_simp

theorem toJSON_assign_round_trip_witness:
  "\<exists>recs. toJSON (\<lambda>t. []) False
            (after_calls [Set 0 ''a'' (1::int), Set 1 ''b'' 2, Get 2 ''a''] (fresh 0 3))
         = Some (Inr (map Some recs))
     \<and> entries (snd (assign (\<lambda>i. 0) (map pair_of recs) (fresh 0 5)))
         = Some [(''b'', 2), (''a'', 1)]"
proof -
  define c where "c = after_calls [Set 0 ''a'' (1::int), Set 1 ''b'' 2, Get 2 ''a''] (fresh 0 3)"
  have h: "well_formed c" "size' c \<le> 5" "entries c = Some [(''b'', 2), (''a'', 1)]"
    unfolding c_def by code_simp+
  have m: "(5::int) \<le> 4294967295" by simp
  from toJSON_assign_round_trip[OF h(1,2) m, of "\<lambda>i. 0" 0 "\<lambda>t. []" "\<lambda>i. 0"] h(3)
  have "\<exists>recs. toJSON (\<lambda>t. []) False c = Some (Inr (map Some recs))
     \<and> entries (snd (assign (\<lambda>i. 0) (map pair_of recs) (fresh 0 5))) = Some [(''b'', 2), (''a'', 1)]"
    by auto
  then show ?thesis unfolding c_def .
qed

end
